theory Spec2Isabelle
  imports Main "HOL-Library.Word"
begin

unbundle bit_operations_syntax

section \<open>The tap-response sketch EP-Tap-analog 1.3.6\<close>

text \<open>
  The sketch runs on an Arduino Uno (AVR): \<^verbatim>\<open>int\<close> and \<^verbatim>\<open>unsigned int\<close> have 16 bits,
  \<^verbatim>\<open>long\<close> and \<^verbatim>\<open>unsigned long\<close> have 32 bits, and all unsigned arithmetic wraps.
  One call of \<^verbatim>\<open>loop()\<close> is one trial.  The clock, the sensors and the serial line are
  the environment: a world holds the values the environment will return to the
  successive calls of \<^verbatim>\<open>micros()\<close>, \<^verbatim>\<open>analogRead()\<close> and \<^verbatim>\<open>digitalRead()\<close>, the
  serial bytes, the global response array, and a trace of every input and output
  action the trial has performed so far, oldest first.  A world fixes what each call
  returns, not how much time passes between two calls: the clock values are whatever
  the list says.
\<close>

subsection \<open>Types and constants\<close>

type_synonym ulong = "32 word"
type_synonym uint = "16 word"

definition adThreshHigh :: uint where
  "adThreshHigh = 25"

definition adThreshLow :: uint where
  "adThreshLow = 25"

definition tDebounce :: ulong where
  "tDebounce = 60000"

definition MaxRespCount :: nat where
  "MaxRespCount = 256"

text \<open>The places of the sketch that call \<^verbatim>\<open>micros()\<close>: line 134, the initialiser
  and the condition of the debounce loop (line 149), its body (line 151), the
  response loop (line 162) and the report (line 185).\<close>

datatype site = TrialStart | DebounceStart | DebounceCheck | DebounceReset | DetectPoll | ReportEnd

text \<open>The actions of a trial.  \<open>ParseInt b v\<close> is a call of \<^verbatim>\<open>Serial.parseInt()\<close> that
  found the bytes \<open>b\<close> in the receive buffer when it was called and returned \<open>v\<close>;
  \<open>Buttons a b\<close> is the pair of calls \<^verbatim>\<open>digitalRead(button1) | digitalRead(button2)\<close>;
  \<open>Store i t\<close> is the assignment \<^verbatim>\<open>respTAbs[i] = t\<close>.\<close>

datatype event =
    Led bool
  | Discarded char
  | ParseInt string ulong
  | Micros site ulong
  | Analog uint
  | Buttons uint uint
  | Store nat ulong
  | PrintNum ulong
  | PrintStr string
  | PrintLn string

datatype fault = InputExhausted | ArrayOverrun

record world =
  clock :: "ulong list"
  analog :: "uint list"
  buttons :: "(uint \<times> uint) list"
  rx :: string
  wire :: "string list"
  respTAbs :: "nat \<Rightarrow> ulong"
  trace :: "event list"

subsection \<open>The services of the board\<close>

definition emit :: "event list \<Rightarrow> world \<Rightarrow> world" where
  "emit evs w = w\<lparr>trace := trace w @ evs\<rparr>"

definition digitalWrite :: "bool \<Rightarrow> world \<Rightarrow> world" where
  "digitalWrite level w = emit [Led level] w"

text \<open>A world whose list of readings is used up stands for an observation that ended
  before the trial did: the call returns \<open>Inl InputExhausted\<close>.\<close>

definition micros :: "site \<Rightarrow> world \<Rightarrow> fault + (ulong \<times> world)" where
  "micros s w =
     (case clock w of
        [] \<Rightarrow> Inl InputExhausted
      | t # ts \<Rightarrow> Inr (t, emit [Micros s t] (w\<lparr>clock := ts\<rparr>)))"

text \<open>\<^verbatim>\<open>analogRead\<close> returns an \<^verbatim>\<open>int\<close>; both comparisons of the sketch are against an
  \<^verbatim>\<open>unsigned int\<close> constant, so the reading is converted to \<^verbatim>\<open>unsigned int\<close> first.\<close>

definition analogRead :: "world \<Rightarrow> fault + (uint \<times> world)" where
  "analogRead w =
     (case analog w of
        [] \<Rightarrow> Inl InputExhausted
      | a # as \<Rightarrow> Inr (a, emit [Analog a] (w\<lparr>analog := as\<rparr>)))"

definition digitalReads :: "world \<Rightarrow> fault + ((uint \<times> uint) \<times> world)" where
  "digitalReads w =
     (case buttons w of
        [] \<Rightarrow> Inl InputExhausted
      | (b1, b2) # bs \<Rightarrow> Inr ((b1, b2), emit [Buttons b1 b2] (w\<lparr>buttons := bs\<rparr>)))"

text \<open>\<^verbatim>\<open>respTAbs\<close> has the slots \<open>0 .. MaxRespCount - 1\<close>; a write to any other index
  overruns the array.\<close>

definition store :: "uint \<Rightarrow> ulong \<Rightarrow> world \<Rightarrow> fault + world" where
  "store respCount t w =
     (if unat respCount < MaxRespCount
      then Inr (emit [Store (unat respCount) t] (w\<lparr>respTAbs := (respTAbs w)(unat respCount := t)\<rparr>))
      else Inl ArrayOverrun)"

subsection \<open>The serial line\<close>

text \<open>
  \<^verbatim>\<open>Serial.parseInt()\<close> belongs to the Arduino core, not to the sketch.  It is modelled
  after \<^verbatim>\<open>Stream::parseInt\<close> of the core the sketch was developed with: leading bytes
  that are neither a digit nor a minus sign are read and dropped, then digits are
  accumulated into a \<^verbatim>\<open>long\<close> until the next byte is no digit; that byte stays in the
  buffer.  \<open>rx\<close> is the receive buffer and \<open>wire\<close> the bursts of bytes that have not
  arrived yet; a burst arrives when the sketch waits for a byte and the buffer is
  empty.  With nothing left to arrive the wait ends by the time-out set in
  \<^verbatim>\<open>setup()\<close>.
\<close>

function timedPeek :: "world \<Rightarrow> char option \<times> world" where
  "timedPeek w =
     (case rx w of
        c # cs \<Rightarrow> (Some c, w)
      | [] \<Rightarrow> (case wire w of
                 [] \<Rightarrow> (None, w)
               | b # bs \<Rightarrow> timedPeek (w\<lparr>rx := b, wire := bs\<rparr>)))"
  by pat_completeness auto
termination
  by (relation "measure (\<lambda>w. length (wire w))") auto

declare timedPeek.simps [simp del]

definition pending :: "world \<Rightarrow> string" where
  "pending w = rx w @ concat (wire w)"

definition serial_read :: "world \<Rightarrow> world" where
  "serial_read w = w\<lparr>rx := tl (rx w)\<rparr>"

definition is_digit :: "char \<Rightarrow> bool" where
  "is_digit c = (48 \<le> (of_char c :: nat) \<and> (of_char c :: nat) \<le> 57)"

definition skipChar :: char where
  "skipChar = CHR 0x01"

lemma timedPeek_pending: "pending (snd (timedPeek w)) = pending w"
proof (induction w rule: timedPeek.induct)
  case (1 w)
  show ?case
  proof (cases "rx w")
    case (Cons c cs)
    then show ?thesis by (subst timedPeek.simps) simp
  next
    case Nil
    note rxNil = Nil
    show ?thesis
    proof (cases "wire w")
      case Nil
      with rxNil show ?thesis by (subst timedPeek.simps) simp
    next
      case (Cons b bs)
      with rxNil 1 have "pending (snd (timedPeek (w\<lparr>rx := b, wire := bs\<rparr>))) =
          pending (w\<lparr>rx := b, wire := bs\<rparr>)" by simp
      with rxNil Cons show ?thesis
        by (subst timedPeek.simps) (simp add: pending_def)
    qed
  qed
qed

lemma timedPeek_Some: "timedPeek w = (Some c, w') \<Longrightarrow> rx w' \<noteq> [] \<and> hd (rx w') = c"
proof (induction w rule: timedPeek.induct)
  case (1 w)
  show ?case
  proof (cases "rx w")
    case (Cons d ds)
    with "1.prems" show ?thesis by (subst (asm) timedPeek.simps) auto
  next
    case Nil
    note rxNil = Nil
    show ?thesis
    proof (cases "wire w")
      case Nil
      with rxNil "1.prems" show ?thesis by (subst (asm) timedPeek.simps) simp
    next
      case (Cons b bs)
      with rxNil "1.prems" have "timedPeek (w\<lparr>rx := b, wire := bs\<rparr>) = (Some c, w')"
        by (subst (asm) timedPeek.simps) simp
      with rxNil Cons 1 show ?thesis by simp
    qed
  qed
qed

lemma timedPeek_read_shorter:
  "timedPeek w = (Some c, w') \<Longrightarrow> length (pending (serial_read w')) < length (pending w)"
proof -
  assume a: "timedPeek w = (Some c, w')"
  then have "rx w' \<noteq> []" by (simp add: timedPeek_Some)
  moreover from a have "pending w' = pending w"
    using timedPeek_pending [of w] by simp
  then have "length (pending w') = length (pending w)" by simp
  ultimately show ?thesis
    by (cases "rx w'") (auto simp: pending_def serial_read_def)
qed

function peekNextDigit :: "world \<Rightarrow> char option \<times> world" where
  "peekNextDigit w =
     (case timedPeek w of
        (None, w1) \<Rightarrow> (None, w1)
      | (Some c, w1) \<Rightarrow>
          if c = CHR ''-'' \<or> is_digit c then (Some c, w1)
          else peekNextDigit (serial_read w1))"
  by pat_completeness auto
termination
  by (relation "measure (\<lambda>w. length (pending w))")
     (auto dest: timedPeek_read_shorter [OF sym])

declare peekNextDigit.simps [simp del]

lemma timedPeek_after_read:
  assumes "timedPeek (serial_read w) = (Some d, w1)"
  shows "length (pending w1) + (if rx w1 = [] then 1 else 0)
       < length (pending w) + (if rx w = [] then 1 else 0)"
proof -
  from assms have nonempty: "rx w1 \<noteq> []" by (simp add: timedPeek_Some)
  from assms have "pending w1 = pending (serial_read w)"
    using timedPeek_pending [of "serial_read w"] by simp
  then have len: "length (pending w1) = length (pending (serial_read w))" by simp
  have "length (pending (serial_read w)) < length (pending w) + (if rx w = [] then 1 else 0)"
    by (cases "rx w") (simp_all add: pending_def serial_read_def)
  with nonempty len show ?thesis by simp
qed

function parse_digits :: "char \<Rightarrow> ulong \<Rightarrow> bool \<Rightarrow> world \<Rightarrow> ulong \<times> bool \<times> world" where
  "parse_digits c v isNegative w =
     (let v1 = (if c = skipChar \<or> c = CHR ''-'' \<or> \<not> is_digit c then v
                else v * 10 + of_nat (of_char c) - 48);
          neg1 = (if c \<noteq> skipChar \<and> c = CHR ''-'' then True else isNegative)
      in case timedPeek (serial_read w) of
           (None, w1) \<Rightarrow> (v1, neg1, w1)
         | (Some d, w1) \<Rightarrow>
             if is_digit d \<or> d = skipChar then parse_digits d v1 neg1 w1
             else (v1, neg1, w1))"
  by pat_completeness auto
termination
  by (relation "measure (\<lambda>(c, v, isNegative, w). length (pending w) + (if rx w = [] then 1 else 0))")
     (auto dest!: timedPeek_after_read [OF sym])

declare parse_digits.simps [simp del]

definition parseInt :: "world \<Rightarrow> ulong \<times> world" where
  "parseInt w =
     (case peekNextDigit w of
        (None, w1) \<Rightarrow> (0, emit [ParseInt (rx w) 0] w1)
      | (Some c, w1) \<Rightarrow>
          (case parse_digits c 0 False w1 of
             (v, isNegative, w2) \<Rightarrow>
               (let r = (if isNegative then - v else v)
                in (r, emit [ParseInt (rx w) r] w2))))"

subsection \<open>One trial\<close>

text \<open>Line 130: \<^verbatim>\<open>while (Serial.available()) Serial.read();\<close>\<close>

function discard_stale :: "world \<Rightarrow> world" where
  "discard_stale w =
     (if rx w \<noteq> [] then discard_stale (emit [Discarded (hd (rx w))] (serial_read w)) else w)"
  by pat_completeness auto
termination
  by (relation "measure (\<lambda>w. length (rx w))") (auto simp: emit_def serial_read_def)

declare discard_stale.simps [simp del]

text \<open>Lines 130 to 133: the two trial parameters.\<close>

definition get_params :: "world \<Rightarrow> ulong \<times> ulong \<times> world" where
  "get_params w =
     (case parseInt (discard_stale w) of
        (respCountTarget, w1) \<Rightarrow>
          (case parseInt w1 of
             (respTLimit_ms, w2) \<Rightarrow> (respCountTarget, respTLimit_ms, w2)))"

text \<open>Line 136: \<^verbatim>\<open>if (respCountTarget > MaxRespCount)  respCountTarget = MaxRespCount;\<close>\<close>

definition clamp_target :: "ulong \<Rightarrow> ulong" where
  "clamp_target respCountTarget =
     (if of_nat MaxRespCount < respCountTarget then of_nat MaxRespCount else respCountTarget)"

text \<open>Every elapsed time of the sketch is an unsigned difference of two clock values.\<close>

definition elapsed :: "ulong \<Rightarrow> ulong \<Rightarrow> ulong" where
  "elapsed now since = now - since"

text \<open>Line 151, the body of the debounce loop: a reading at or above the low
  threshold takes a new reference time.\<close>

definition debounce_body :: "ulong \<Rightarrow> world \<Rightarrow> fault + (ulong \<times> world)" where
  "debounce_body t w =
     (case analogRead w of
        Inl f \<Rightarrow> Inl f
      | Inr (a, w1) \<Rightarrow>
          if adThreshLow \<le> a then micros DebounceReset w1 else Inr (t, w1))"

lemma micros_clock:
  "micros s w = Inr (t, w') \<Longrightarrow> clock w = t # clock w'"
  by (auto simp: micros_def emit_def split: list.splits)

lemma analogRead_clock: "analogRead w = Inr (a, w') \<Longrightarrow> clock w' = clock w"
  by (auto simp: analogRead_def emit_def split: list.splits)

lemma digitalReads_clock: "digitalReads w = Inr (b, w') \<Longrightarrow> clock w' = clock w"
  by (auto simp: digitalReads_def emit_def split: list.splits prod.splits)

lemma debounce_body_clock:
  "debounce_body t w = Inr (t', w') \<Longrightarrow> length (clock w') \<le> length (clock w)"
  by (auto simp: debounce_body_def split: sum.splits if_splits
      dest!: micros_clock [THEN arg_cong [where f = length]] analogRead_clock)

text \<open>Line 149, the debounce loop from its condition on: \<open>t\<close> is the reference time.\<close>

function debounce_loop :: "ulong \<Rightarrow> world \<Rightarrow> fault + world" where
  "debounce_loop t w =
     (case micros DebounceCheck w of
        Inl f \<Rightarrow> Inl f
      | Inr (now, w1) \<Rightarrow>
          if elapsed now t < tDebounce then
            (case debounce_body t w1 of
               Inl f \<Rightarrow> Inl f
             | Inr (t', w2) \<Rightarrow> debounce_loop t' w2)
          else Inr w1)"
  by pat_completeness auto
termination
  by (relation "measure (\<lambda>(t, w). length (clock w))")
     (auto dest!: micros_clock [THEN arg_cong [where f = length]] debounce_body_clock)

declare debounce_loop.simps [simp del]

definition debounce :: "world \<Rightarrow> fault + world" where
  "debounce w =
     (case micros DebounceStart w of
        Inl f \<Rightarrow> Inl f
      | Inr (t, w1) \<Rightarrow> debounce_loop t w1)"

text \<open>Lines 162 to 165, one cycle of the response loop: the clock is sampled and
  compared with the time limit, then the two buttons are read, then the analog
  input.\<close>

datatype poll = StillWaiting | TapDetected ulong | DeadlineExpired

definition poll_once :: "ulong \<Rightarrow> ulong \<Rightarrow> world \<Rightarrow> fault + (poll \<times> world)" where
  "poll_once t0 respTLimit w =
     (case micros DetectPoll w of
        Inl f \<Rightarrow> Inl f
      | Inr (t, w1) \<Rightarrow>
          if respTLimit \<le> elapsed t t0 then Inr (DeadlineExpired, w1)
          else
            (case digitalReads w1 of
               Inl f \<Rightarrow> Inl f
             | Inr ((b1, b2), w2) \<Rightarrow>
                 if b1 OR b2 \<noteq> 0 then Inr (TapDetected t, w2)
                 else
                   (case analogRead w2 of
                      Inl f \<Rightarrow> Inl f
                    | Inr (a, w3) \<Rightarrow>
                        if a < adThreshHigh then Inr (StillWaiting, w3)
                        else Inr (TapDetected t, w3))))"

lemma poll_once_clock:
  "poll_once t0 lim w = Inr (r, w') \<Longrightarrow> length (clock w') < length (clock w)"
  by (auto simp: poll_once_def split: sum.splits if_splits prod.splits
      dest!: micros_clock [THEN arg_cong [where f = length]] analogRead_clock digitalReads_clock)

text \<open>Lines 160 to 165, the loop that gets one response: \<open>Some t\<close> is a response at
  clock value \<open>t\<close>, \<open>None\<close> is the jump to \<^verbatim>\<open>respLoopExit\<close>.\<close>

function get_one_response :: "ulong \<Rightarrow> ulong \<Rightarrow> world \<Rightarrow> fault + (ulong option \<times> world)" where
  "get_one_response t0 respTLimit w =
     (case poll_once t0 respTLimit w of
        Inl f \<Rightarrow> Inl f
      | Inr (DeadlineExpired, w1) \<Rightarrow> Inr (None, w1)
      | Inr (TapDetected t, w1) \<Rightarrow> Inr (Some t, w1)
      | Inr (StillWaiting, w1) \<Rightarrow> get_one_response t0 respTLimit w1)"
  by pat_completeness auto
termination
  by (relation "measure (\<lambda>(t0, lim, w). length (clock w))")
     (auto dest!: poll_once_clock)

declare get_one_response.simps [simp del]

lemma debounce_loop_clock:
  "debounce_loop t w = Inr w' \<Longrightarrow> length (clock w') < length (clock w)"
proof (induction t w rule: debounce_loop.induct)
  case (1 t w)
  from "1.prems" obtain now w1 where m: "micros DebounceCheck w = Inr (now, w1)"
    by (subst (asm) debounce_loop.simps) (auto split: sum.splits)
  then have len: "length (clock w1) < length (clock w)"
    by (auto dest!: micros_clock [THEN arg_cong [where f = length]])
  show ?case
  proof (cases "elapsed now t < tDebounce")
    case False
    with "1.prems" m have "w' = w1"
      by (subst (asm) debounce_loop.simps) simp
    with len show ?thesis by simp
  next
    case True
    with "1.prems" m obtain t' w2 where b: "debounce_body t w1 = Inr (t', w2)"
      and r: "debounce_loop t' w2 = Inr w'"
      by (subst (asm) debounce_loop.simps) (auto split: sum.splits)
    from "1.IH" [OF m refl True b refl r] debounce_body_clock [OF b] len
    show ?thesis by simp
  qed
qed

lemma debounce_clock: "debounce w = Inr w' \<Longrightarrow> length (clock w') < length (clock w)"
  by (auto simp: debounce_def split: sum.splits
      dest!: micros_clock [THEN arg_cong [where f = length]] debounce_loop_clock)

lemma get_one_response_clock:
  "get_one_response t0 lim w = Inr (r, w') \<Longrightarrow> length (clock w') < length (clock w)"
proof (induction t0 lim w rule: get_one_response.induct)
  case (1 t0 lim w)
  from "1.prems" obtain p w1 where po: "poll_once t0 lim w = Inr (p, w1)"
    by (subst (asm) get_one_response.simps) (auto split: sum.splits)
  note len = poll_once_clock [OF po]
  show ?case
  proof (cases p)
    case StillWaiting
    with "1.prems" po have "get_one_response t0 lim w1 = Inr (r, w')"
      by (subst (asm) get_one_response.simps) simp
    from "1.IH" [OF po refl _ this] StillWaiting len show ?thesis by simp
  next
    case (TapDetected t)
    with "1.prems" po have "w' = w1"
      by (subst (asm) get_one_response.simps) simp
    with len show ?thesis by simp
  next
    case DeadlineExpired
    with "1.prems" po have "w' = w1"
      by (subst (asm) get_one_response.simps) simp
    with len show ?thesis by simp
  qed
qed

lemma store_clock: "store k t w = Inr w' \<Longrightarrow> clock w' = clock w"
  by (auto simp: store_def emit_def split: if_splits)

lemma digitalWrite_clock: "clock (digitalWrite b w) = clock w"
  by (simp add: digitalWrite_def emit_def)

text \<open>How the collection of responses ended: the loop condition of line 145 failed,
  or line 163 jumped to \<^verbatim>\<open>respLoopExit\<close>.\<close>

datatype ending = TargetReached | DeadlineExit

text \<open>Lines 145 to 167, the loop over the responses, from its condition on.
  \<open>respCount\<close> is an \<^verbatim>\<open>unsigned int\<close> and is converted to \<^verbatim>\<open>unsigned long\<close> for the
  comparison with \<open>respCountTarget\<close>.\<close>

function get_responses ::
  "ulong \<Rightarrow> ulong \<Rightarrow> ulong \<Rightarrow> uint \<Rightarrow> world \<Rightarrow> fault + (ending \<times> uint \<times> world)" where
  "get_responses respCountTarget respTLimit t0 respCount w =
     (if ucast respCount < respCountTarget then
        (case debounce (digitalWrite True w) of
           Inl f \<Rightarrow> Inl f
         | Inr w1 \<Rightarrow>
             (case get_one_response t0 respTLimit (digitalWrite False w1) of
                Inl f \<Rightarrow> Inl f
              | Inr (None, w2) \<Rightarrow> Inr (DeadlineExit, respCount, w2)
              | Inr (Some t, w2) \<Rightarrow>
                  (case store respCount t w2 of
                     Inl f \<Rightarrow> Inl f
                   | Inr w3 \<Rightarrow>
                       get_responses respCountTarget respTLimit t0 (respCount + 1) w3)))
      else Inr (TargetReached, respCount, w))"
  by pat_completeness auto
termination
  by (relation "measure (\<lambda>(target, lim, t0, k, w). length (clock w))")
     (auto dest!: debounce_clock get_one_response_clock store_clock simp: digitalWrite_clock)

declare get_responses.simps [simp del]

text \<open>Line 182: the timestamps the report prints, each relative to the start of the
  trial.\<close>

definition relative_timestamps :: "ulong \<Rightarrow> uint \<Rightarrow> world \<Rightarrow> ulong list" where
  "relative_timestamps t0 respCount w = map (\<lambda>i. respTAbs w i - t0) [0..<unat respCount]"

text \<open>Lines 174 to 186.  The loop of line 180 reads the slots below \<open>respCount\<close>.\<close>

definition report :: "ulong \<Rightarrow> ulong \<Rightarrow> ulong \<Rightarrow> uint \<Rightarrow> world \<Rightarrow> fault + world" where
  "report respCountTarget respTLimit_ms t0 respCount w =
     (if MaxRespCount < unat respCount then Inl ArrayOverrun
      else
        (let w1 = emit [PrintNum respCountTarget, PrintStr '' '',
                        PrintNum respTLimit_ms, PrintStr '' '',
                        PrintNum t0, PrintStr '' '',
                        PrintNum (ucast respCount), PrintStr '' ''] w;
             w2 = emit (concat (map (\<lambda>r. [PrintNum r, PrintStr '' ''])
                                    (relative_timestamps t0 respCount w1))) w1
         in case micros ReportEnd w2 of
              Inl f \<Rightarrow> Inl f
            | Inr (tEnd, w3) \<Rightarrow> Inr (emit [PrintNum tEnd, PrintLn ''.''] w3)))"

text \<open>The variables of \<^verbatim>\<open>loop()\<close> when the trial is over, and how the collection
  ended.\<close>

record locals =
  respCountTarget :: ulong
  respTLimit_ms :: ulong
  respTLimit :: ulong
  respCount :: uint
  t0 :: ulong
  ending :: ending

text \<open>Lines 118 to 190: one trial.\<close>

definition loop :: "world \<Rightarrow> fault + (locals \<times> world)" where
  "loop w =
     (case get_params (digitalWrite True w) of
        (requested, ms, w1) \<Rightarrow>
          (case micros TrialStart w1 of
             Inl f \<Rightarrow> Inl f
           | Inr (start, w2) \<Rightarrow>
               (let target = clamp_target requested;
                    lim = ms * 1000
                in case get_responses target lim start 0 w2 of
                     Inl f \<Rightarrow> Inl f
                   | Inr (e, n, w3) \<Rightarrow>
                       (case report target ms start n w3 of
                          Inl f \<Rightarrow> Inl f
                        | Inr w4 \<Rightarrow>
                            Inr (\<lparr>respCountTarget = target, respTLimit_ms = ms,
                                  respTLimit = lim, respCount = n, t0 = start,
                                  ending = e\<rparr>, w4)))))"

subsection \<open>Reading the trace\<close>

text \<open>The numbers among the events: what the host reads as the fields of the record.\<close>

fun field_of :: "event \<Rightarrow> ulong list" where
  "field_of (PrintNum v) = [v]"
| "field_of _ = []"

definition fields :: "event list \<Rightarrow> ulong list" where
  "fields evs = concat (map field_of evs)"

text \<open>The events a run has added to the trace.\<close>

definition since :: "world \<Rightarrow> world \<Rightarrow> event list" where
  "since w w' = drop (length (trace w)) (trace w')"

text \<open>A clock sample of the response loop at which the time since \<open>start\<close> is at least
  \<open>lim\<close>: the comparison of line 163 succeeds.\<close>

fun deadline_seen :: "ulong \<Rightarrow> ulong \<Rightarrow> event \<Rightarrow> bool" where
  "deadline_seen start lim (Micros DetectPoll t) = (lim \<le> elapsed t start)"
| "deadline_seen start lim _ = False"

text \<open>The same with the limit the spec names, the product \<open>timeLimitMs \<times> 1000\<close> taken
  without wrap-around.\<close>

fun product_limit_seen :: "ulong \<Rightarrow> ulong \<Rightarrow> event \<Rightarrow> bool" where
  "product_limit_seen start ms (Micros DetectPoll t) = (unat ms * 1000 \<le> unat (elapsed t start))"
| "product_limit_seen start ms _ = False"

fun is_store :: "event \<Rightarrow> bool" where
  "is_store (Store i t) = True"
| "is_store _ = False"

text \<open>Every event but a store at index \<open>n\<close> or above.\<close>

fun stored_below :: "nat \<Rightarrow> event \<Rightarrow> bool" where
  "stored_below n (Store i t) = (i < n)"
| "stored_below n _ = True"

fun is_print :: "event \<Rightarrow> bool" where
  "is_print (PrintNum v) = True"
| "is_print (PrintStr s) = True"
| "is_print (PrintLn s) = True"
| "is_print _ = False"

text \<open>The level the indicator has at each print of a trace: \<open>None\<close> before the first
  \<^verbatim>\<open>digitalWrite\<close>.\<close>

fun led_at_prints :: "bool option \<Rightarrow> event list \<Rightarrow> bool option list" where
  "led_at_prints led [] = []"
| "led_at_prints led (Led b # evs) = led_at_prints (Some b) evs"
| "led_at_prints led (ev # evs) =
     (if is_print ev then led # led_at_prints led evs else led_at_prints led evs)"

text \<open>Every event but a \<^verbatim>\<open>parseInt\<close> that found bytes in the receive buffer.\<close>

fun starts_empty :: "event \<Rightarrow> bool" where
  "starts_empty (ParseInt buffered v) = (buffered = [])"
| "starts_empty _ = True"



text \<open>The events the report of lines 174 to 186 consists of, given the final clock
  value.\<close>

definition report_of :: "locals \<Rightarrow> world \<Rightarrow> ulong \<Rightarrow> event list" where
  "report_of l w tEnd =
     [PrintNum (respCountTarget l), PrintStr '' '', PrintNum (respTLimit_ms l), PrintStr '' '',
      PrintNum (t0 l), PrintStr '' '', PrintNum (ucast (respCount l)), PrintStr '' ''] @
     concat (map (\<lambda>r. [PrintNum r, PrintStr '' ''])
                 (relative_timestamps (t0 l) (respCount l) w)) @
     [Micros ReportEnd tEnd, PrintNum tEnd, PrintLn ''.'']"

subsection \<open>The clock\<close>

text \<open>The clock counts microseconds and wraps at \<open>2 ^ 32\<close>: at true time \<open>n\<close> (in \<open>\<mu>s\<close>)
  \<^verbatim>\<open>micros()\<close> returns \<open>n mod 2 ^ 32\<close>.\<close>

definition micros_at :: "nat \<Rightarrow> ulong" where
  "micros_at n = of_nat n"

text \<open>How often the counter has wrapped between two true times.\<close>

definition wraps_between :: "nat \<Rightarrow> nat \<Rightarrow> nat" where
  "wraps_between start now = now div 2 ^ 32 - start div 2 ^ 32"

subsection \<open>Sample trials\<close>

text \<open>One response is requested within 500 ms; a button is down at the first poll.\<close>

definition one_tap :: world where
  "one_tap = \<lparr>clock = [1000, 1010, 61010, 70000, 80000], analog = [], buttons = [(1, 0)],
     rx = ''x'', wire = [''1,500,''], respTAbs = (\<lambda>i. 0), trace = []\<rparr>"

text \<open>300 responses are requested with a time limit of 0 ms.\<close>

definition over_capacity :: world where
  "over_capacity = \<lparr>clock = [1000, 1010, 61010, 61020, 61030], analog = [], buttons = [],
     rx = [], wire = [''300,0,''], respTAbs = (\<lambda>i. 0), trace = []\<rparr>"


text \<open>No response is requested.\<close>

definition zero_target :: world where
  "zero_target = \<lparr>clock = [100, 200], analog = [], buttons = [],
     rx = [], wire = [''0,500,''], respTAbs = (\<lambda>i. 0), trace = []\<rparr>"




text \<open>One response is requested within 4294968 ms, a limit that does not fit into
  32 bits when given in microseconds; a button is down at the first poll.\<close>

definition limit_wraps :: world where
  "limit_wraps = \<lparr>clock = [1000, 1010, 61010, 61020, 61030], analog = [], buttons = [(1, 0)],
     rx = [], wire = [''1,4294968,''], respTAbs = (\<lambda>i. 0), trace = []\<rparr>"

text \<open>Two responses within 500 ms, in a trial that begins shortly before the clock
  wraps.\<close>

definition across_wrap :: world where
  "across_wrap =
     \<lparr>clock = map micros_at [4294900000, 4294900010, 4294960010, 4294969000, 4294969010,
                               4295029010, 4295039000, 4295049000],
      analog = [], buttons = [(1, 0), (0, 1)],
      rx = [], wire = [''2,500,''], respTAbs = (\<lambda>i. 0), trace = []\<rparr>"

text \<open>A trial that lasts longer than one period of the clock: two responses are
  requested within 4294967 ms.  The clock values are those of the true times given,
  in microseconds; every phase of the trial is passed with the fewest samples.\<close>

definition long_trial :: world where
  "long_trial =
     \<lparr>clock = map micros_at [1000, 1010, 31010, 61010, 4294961000, 4294961010, 4294991010,
                               4295021010, 4295021020, 4295021030],
      analog = [0, 100, 0], buttons = [(0, 0), (1, 0)],
      rx = [], wire = [''2,4294967,''], respTAbs = (\<lambda>i. 0), trace = []\<rparr>"

text \<open>The relative timestamps a trial reports, and all the numbers it prints.\<close>

definition trial_timestamps :: "world \<Rightarrow> ulong list" where
  "trial_timestamps w =
     (case loop w of
        Inl f \<Rightarrow> []
      | Inr (l, w') \<Rightarrow> relative_timestamps (t0 l) (respCount l) w')"

definition reported :: "world \<Rightarrow> ulong list" where
  "reported w = (case loop w of Inl f \<Rightarrow> [] | Inr (l, w') \<Rightarrow> fields (since w w'))"

text \<open>All the events of a trial.\<close>

definition trial_events :: "world \<Rightarrow> event list" where
  "trial_events w = (case loop w of Inl f \<Rightarrow> [] | Inr (l, w') \<Rightarrow> since w w')"

subsection \<open>Notions of the proofs\<close>

text \<open>Events that print no number and at which the time limit was not seen reached.\<close>

definition quiet :: "ulong \<Rightarrow> ulong \<Rightarrow> event list \<Rightarrow> bool" where
  "quiet start lim evs = (fields evs = [] \<and> list_all (\<lambda>ev. \<not> deadline_seen start lim ev) evs)"

text \<open>The events of a poll: quiet unless the deadline was seen, and then the sample
  that saw it is the last event.\<close>

definition poll_shape :: "ulong \<Rightarrow> ulong \<Rightarrow> bool \<Rightarrow> event list \<Rightarrow> bool" where
  "poll_shape start lim expired evs =
     (if expired
      then \<exists>pre t. evs = pre @ [Micros DetectPoll t] \<and> quiet start lim pre \<and> lim \<le> elapsed t start
      else quiet start lim evs)"

text \<open>Everything of a world but the serial line.\<close>

definition board ::
  "world \<Rightarrow> ulong list \<times> uint list \<times> (uint \<times> uint) list \<times> (nat \<Rightarrow> ulong) \<times> event list" where
  "board w = (clock w, analog w, buttons w, respTAbs w, trace w)"

text \<open>The timestamps stored so far, followed by the clock values still to come.\<close>

definition timeline :: "uint \<Rightarrow> world \<Rightarrow> ulong list" where
  "timeline k w = map (respTAbs w) [0..<unat k] @ clock w"

section \<open>Runs of the loops\<close>

text \<open>Each loop that returns has made finitely many iterations; the rules below
  are induction over them.\<close>

lemma debounce_loop_unfold:
  "debounce_loop t w = Inr w' \<longleftrightarrow>
     (\<exists>now w1. micros DebounceCheck w = Inr (now, w1) \<and>
        (if elapsed now t < tDebounce
         then \<exists>t' w2. debounce_body t w1 = Inr (t', w2) \<and> debounce_loop t' w2 = Inr w'
         else w' = w1))"
  by (subst debounce_loop.simps) (auto split: sum.splits)

lemma debounce_loop_run [consumes 1, case_names Done Again]:
  assumes "debounce_loop t w = Inr w'"
    and "\<And>t w now w1. micros DebounceCheck w = Inr (now, w1) \<Longrightarrow>
            \<not> elapsed now t < tDebounce \<Longrightarrow> P t w w1"
    and "\<And>t w now w1 t' w2 w'. micros DebounceCheck w = Inr (now, w1) \<Longrightarrow>
            elapsed now t < tDebounce \<Longrightarrow> debounce_body t w1 = Inr (t', w2) \<Longrightarrow>
            debounce_loop t' w2 = Inr w' \<Longrightarrow> P t' w2 w' \<Longrightarrow> P t w w'"
  shows "P t w w'"
  using assms(1)
proof (induction t w rule: debounce_loop.induct)
  case (1 t w)
  from "1.prems" obtain now w1 where m: "micros DebounceCheck w = Inr (now, w1)"
    and rest: "if elapsed now t < tDebounce
         then \<exists>t' w2. debounce_body t w1 = Inr (t', w2) \<and> debounce_loop t' w2 = Inr w'
         else w' = w1"
    unfolding debounce_loop_unfold [of t w] by blast
  show ?case
  proof (cases "elapsed now t < tDebounce")
    case False
    with rest m assms(2) show ?thesis by simp
  next
    case True
    with rest obtain t' w2 where b: "debounce_body t w1 = Inr (t', w2)"
      and r: "debounce_loop t' w2 = Inr w'" by auto
    from "1.IH" [OF m refl True b refl r] have "P t' w2 w'" .
    with assms(3) m True b r show ?thesis by blast
  qed
qed

lemma get_one_response_unfold:
  "get_one_response st lim w = Inr (r, w') \<longleftrightarrow>
     (\<exists>p w1. poll_once st lim w = Inr (p, w1) \<and>
        (case p of
           DeadlineExpired \<Rightarrow> r = None \<and> w' = w1
         | TapDetected t \<Rightarrow> r = Some t \<and> w' = w1
         | StillWaiting \<Rightarrow> get_one_response st lim w1 = Inr (r, w')))"
  by (subst get_one_response.simps) (auto split: sum.splits poll.splits)

lemma get_one_response_run [consumes 1, case_names Deadline Tap Wait]:
  assumes "get_one_response st lim w = Inr (r, w')"
    and "\<And>w w1. poll_once st lim w = Inr (DeadlineExpired, w1) \<Longrightarrow> P w None w1"
    and "\<And>w t w1. poll_once st lim w = Inr (TapDetected t, w1) \<Longrightarrow> P w (Some t) w1"
    and "\<And>w w1 r w'. poll_once st lim w = Inr (StillWaiting, w1) \<Longrightarrow>
            get_one_response st lim w1 = Inr (r, w') \<Longrightarrow> P w1 r w' \<Longrightarrow> P w r w'"
  shows "P w r w'"
proof -
  have "get_one_response a b w = Inr (r, w') \<Longrightarrow> a = st \<Longrightarrow> b = lim \<Longrightarrow> P w r w'" for a b
  proof (induction a b w rule: get_one_response.induct)
    case (1 a b w)
    note [simp] = \<open>a = st\<close> \<open>b = lim\<close>
    from "1.prems" have "get_one_response st lim w = Inr (r, w')" by simp
    then obtain p w1 where po: "poll_once st lim w = Inr (p, w1)"
      and rest: "case p of
             DeadlineExpired \<Rightarrow> r = None \<and> w' = w1
           | TapDetected t \<Rightarrow> r = Some t \<and> w' = w1
           | StillWaiting \<Rightarrow> get_one_response st lim w1 = Inr (r, w')"
      unfolding get_one_response_unfold [of st lim w] by blast
    show ?case
    proof (cases p)
      case StillWaiting
      with rest have r: "get_one_response st lim w1 = Inr (r, w')" by simp
      from po StillWaiting have po': "poll_once a b w = Inr (StillWaiting, w1)" by simp
      from "1.IH" [OF po' refl refl] r have "P w1 r w'" by simp
      from assms(4) [OF po [unfolded StillWaiting] r this] show ?thesis .
    next
      case (TapDetected t)
      with rest po assms(3) show ?thesis by simp
    next
      case DeadlineExpired
      with rest po assms(2) show ?thesis by simp
    qed
  qed
  with assms(1) show ?thesis by simp
qed

lemma get_responses_unfold:
  "get_responses target lim st k w = Inr (e, n, w') \<longleftrightarrow>
     (if ucast k < target then
        \<exists>w1 r w2. debounce (digitalWrite True w) = Inr w1 \<and>
          get_one_response st lim (digitalWrite False w1) = Inr (r, w2) \<and>
          (case r of
             None \<Rightarrow> e = DeadlineExit \<and> n = k \<and> w' = w2
           | Some t \<Rightarrow> \<exists>w3. store k t w2 = Inr w3 \<and>
               get_responses target lim st (k + 1) w3 = Inr (e, n, w'))
      else e = TargetReached \<and> n = k \<and> w' = w)"
  by (subst get_responses.simps) (auto split: sum.splits option.splits)

lemma get_responses_run [consumes 1, case_names Reached Deadline Response]:
  assumes "get_responses target lim st k w = Inr (e, n, w')"
    and "\<And>k w. \<not> ucast k < target \<Longrightarrow> P k w TargetReached k w"
    and "\<And>k w w1 w2. ucast k < target \<Longrightarrow> debounce (digitalWrite True w) = Inr w1 \<Longrightarrow>
            get_one_response st lim (digitalWrite False w1) = Inr (None, w2) \<Longrightarrow>
            P k w DeadlineExit k w2"
    and "\<And>k w w1 t w2 w3 e n w'. ucast k < target \<Longrightarrow>
            debounce (digitalWrite True w) = Inr w1 \<Longrightarrow>
            get_one_response st lim (digitalWrite False w1) = Inr (Some t, w2) \<Longrightarrow>
            store k t w2 = Inr w3 \<Longrightarrow>
            get_responses target lim st (k + 1) w3 = Inr (e, n, w') \<Longrightarrow>
            P (k + 1) w3 e n w' \<Longrightarrow> P k w e n w'"
  shows "P k w e n w'"
proof -
  have "get_responses a b c k w = Inr (e, n, w') \<Longrightarrow> a = target \<Longrightarrow> b = lim \<Longrightarrow> c = st
      \<Longrightarrow> P k w e n w'" for a b c
  proof (induction a b c k w rule: get_responses.induct)
    case (1 a b c k w)
    note [simp] = \<open>a = target\<close> \<open>b = lim\<close> \<open>c = st\<close>
    from "1.prems" have run: "get_responses target lim st k w = Inr (e, n, w')" by simp
    show ?case
    proof (cases "ucast k < target")
      case False
      with run have "e = TargetReached" "n = k" "w' = w"
        unfolding get_responses_unfold [of target lim st k w] by simp_all
      with assms(2) [OF False] show ?thesis by simp
    next
      case True
      with run obtain w1 r w2 where d: "debounce (digitalWrite True w) = Inr w1"
        and g: "get_one_response st lim (digitalWrite False w1) = Inr (r, w2)"
        and rest: "case r of
               None \<Rightarrow> e = DeadlineExit \<and> n = k \<and> w' = w2
             | Some t \<Rightarrow> \<exists>w3. store k t w2 = Inr w3 \<and>
                 get_responses target lim st (k + 1) w3 = Inr (e, n, w')"
        unfolding get_responses_unfold [of target lim st k w] by auto
      show ?thesis
      proof (cases r)
        case None
        with rest have "e = DeadlineExit" "n = k" "w' = w2" by simp_all
        with assms(3) [OF True d g [unfolded None]] show ?thesis by simp
      next
        case (Some t)
        with rest obtain w3 where s: "store k t w2 = Inr w3"
          and r: "get_responses target lim st (k + 1) w3 = Inr (e, n, w')" by auto
        from g Some have g': "get_one_response st lim (digitalWrite False w1) = Inr (Some t, w2)"
          by simp
        from True have True': "ucast k < a" by simp
        from g' have g'': "get_one_response c b (digitalWrite False w1) = Inr (Some t, w2)"
          by simp
        from "1.IH" [OF True' d g'' refl refl s] r have "P (k + 1) w3 e n w'" by simp
        from assms(4) [OF True d g' s r this] show ?thesis .
      qed
    qed
  qed
  with assms(1) show ?thesis by simp
qed

section \<open>What each step does\<close>

lemma micros_effect:
  "micros s w = Inr (t, w') \<longleftrightarrow> (\<exists>ts. clock w = t # ts \<and> w' = emit [Micros s t] (w\<lparr>clock := ts\<rparr>))"
  by (auto simp: micros_def split: list.splits)

lemma analogRead_effect:
  "analogRead w = Inr (a, w') \<longleftrightarrow>
     (\<exists>as. analog w = a # as \<and> w' = emit [Analog a] (w\<lparr>analog := as\<rparr>))"
  by (auto simp: analogRead_def split: list.splits)

lemma digitalReads_effect:
  "digitalReads w = Inr ((b1, b2), w') \<longleftrightarrow>
     (\<exists>bs. buttons w = (b1, b2) # bs \<and> w' = emit [Buttons b1 b2] (w\<lparr>buttons := bs\<rparr>))"
  by (auto simp: digitalReads_def split: list.splits)

lemma store_effect:
  "store k t w = Inr w' \<longleftrightarrow>
     (unat k < MaxRespCount \<and>
      w' = emit [Store (unat k) t] (w\<lparr>respTAbs := (respTAbs w)(unat k := t)\<rparr>))"
  by (auto simp: store_def)

lemma micros_fault: "micros s w = Inl f \<Longrightarrow> f = InputExhausted"
  by (auto simp: micros_def split: list.splits)

lemma analogRead_fault: "analogRead w = Inl f \<Longrightarrow> f = InputExhausted"
  by (auto simp: analogRead_def split: list.splits)

lemma digitalReads_fault: "digitalReads w = Inl f \<Longrightarrow> f = InputExhausted"
  by (auto simp: digitalReads_def split: list.splits prod.splits)

lemma debounce_body_fault: "debounce_body t w = Inl f \<Longrightarrow> f = InputExhausted"
  by (auto simp: debounce_body_def split: sum.splits if_splits prod.splits
      dest: micros_fault analogRead_fault)

lemma poll_once_fault: "poll_once st lim w = Inl f \<Longrightarrow> f = InputExhausted"
  by (auto simp: poll_once_def split: sum.splits if_splits prod.splits
      dest: micros_fault analogRead_fault digitalReads_fault)

lemma debounce_loop_fault: "debounce_loop t w = Inl f \<Longrightarrow> f = InputExhausted"
proof (induction t w rule: debounce_loop.induct)
  case (1 t w)
  from "1.prems" show ?case
    by (subst (asm) debounce_loop.simps)
       (auto split: sum.splits if_splits dest: micros_fault debounce_body_fault "1.IH")
qed

lemma debounce_fault: "debounce w = Inl f \<Longrightarrow> f = InputExhausted"
  by (auto simp: debounce_def split: sum.splits dest: micros_fault debounce_loop_fault)

lemma get_one_response_fault: "get_one_response st lim w = Inl f \<Longrightarrow> f = InputExhausted"
proof (induction st lim w rule: get_one_response.induct)
  case (1 st lim w)
  from "1.prems" show ?case
    by (subst (asm) get_one_response.simps)
       (auto split: sum.splits poll.splits dest: poll_once_fault "1.IH")
qed

lemma unat_ucast_uint: "unat (ucast (k :: uint) :: ulong) = unat k"
proof -
  have "unat k < 2 ^ 16" using unsigned_less [of k, where 'a = nat] by simp
  then have "unat k < 2 ^ 32" by simp
  then show ?thesis by (simp add: unsigned_ucast_eq take_bit_nat_eq_self)
qed

lemma ucast_less_iff: "(ucast (k :: uint) :: ulong) < target \<longleftrightarrow> unat k < unat target"
  by (simp add: word_less_nat_alt unat_ucast_uint)

lemma get_responses_fault:
  "unat target \<le> MaxRespCount \<Longrightarrow> get_responses target lim st k w = Inl f \<Longrightarrow> f = InputExhausted"
proof (induction target lim st k w rule: get_responses.induct)
  case (1 target lim st k w)
  show ?case
  proof (cases "ucast k < target")
    case False
    with "1.prems" show ?thesis by (subst (asm) get_responses.simps) simp
  next
    case True
    then have "unat k < MaxRespCount" using "1.prems"(1) by (simp add: ucast_less_iff)
    then have nostore: "store k t w2 \<noteq> Inl g" for t w2 g by (simp add: store_def)
    from "1.prems"(2) True show ?thesis
      apply (subst (asm) get_responses.simps)
      apply (auto split: sum.splits option.splits simp: nostore
          dest: debounce_fault get_one_response_fault)
      apply (erule "1.IH" [OF True _ _ refl refl _ "1.prems"(1), rotated -1])
      apply assumption+
      done
  qed
qed

lemma get_responses_count:
  assumes "get_responses target lim st k w = Inr (e, n, w')"
  shows "unat k \<le> unat target \<Longrightarrow>
         unat n \<le> unat target \<and> (e = TargetReached \<longrightarrow> unat n = unat target)"
  using assms
proof (induction rule: get_responses_run)
  case (Reached k w)
  then show ?case by (simp add: ucast_less_iff)
next
  case (Deadline k w w1 w2)
  then show ?case by simp
next
  case (Response k w w1 t w2 w3 e n w')
  from Response.hyps(1) have "unat k < unat target" by (simp add: ucast_less_iff)
  moreover from Response.hyps(4) have "unat k < MaxRespCount" by (simp add: store_effect)
  then have "unat (k + 1) = unat k + 1"
    by (simp add: MaxRespCount_def unat_word_ariths)
  ultimately show ?case using Response.IH by simp
qed

lemma fields_simps [simp]:
  "fields [] = []" "fields (ev # evs) = field_of ev @ fields evs"
  "fields (xs @ ys) = fields xs @ fields ys"
  by (simp_all add: fields_def)

lemma quiet_simps [simp]:
  "quiet st lim []"
  "quiet st lim (ev # evs) \<longleftrightarrow> field_of ev = [] \<and> \<not> deadline_seen st lim ev \<and> quiet st lim evs"
  "quiet st lim (xs @ ys) \<longleftrightarrow> quiet st lim xs \<and> quiet st lim ys"
  by (auto simp: quiet_def)

lemma trace_emit [simp]: "trace (emit evs w) = trace w @ evs"
  by (simp add: emit_def)

lemma trace_digitalWrite [simp]: "trace (digitalWrite b w) = trace w @ [Led b]"
  by (simp add: digitalWrite_def)

lemma debounce_body_quiet:
  "debounce_body t w = Inr (t', w') \<Longrightarrow> \<exists>evs. trace w' = trace w @ evs \<and> quiet st lim evs"
  by (auto simp: debounce_body_def micros_effect analogRead_effect split: sum.splits if_splits)

lemma debounce_loop_quiet:
  assumes "debounce_loop t w = Inr w'"
  shows "\<exists>evs. trace w' = trace w @ evs \<and> quiet st lim evs"
  using assms
proof (induction rule: debounce_loop_run)
  case (Done t w now w1)
  then show ?case by (auto simp: micros_effect)
next
  case (Again t w now w1 t' w2 w')
  from Again.hyps(1) have 1: "trace w1 = trace w @ [Micros DebounceCheck now]"
    by (auto simp: micros_effect)
  from debounce_body_quiet [OF Again.hyps(3)] obtain e2
    where 2: "trace w2 = trace w1 @ e2" "quiet st lim e2" by blast
  from Again.IH obtain e3 where 3: "trace w' = trace w2 @ e3" "quiet st lim e3" by blast
  from 1 2 3 have "trace w' = trace w @ (Micros DebounceCheck now # e2 @ e3)" by simp
  moreover from 2 3 have "quiet st lim (Micros DebounceCheck now # e2 @ e3)" by simp
  ultimately show ?case by blast
qed

lemma debounce_quiet:
  assumes "debounce w = Inr w'"
  shows "\<exists>evs. trace w' = trace w @ evs \<and> quiet st lim evs"
proof -
  from assms obtain t w1 where m: "micros DebounceStart w = Inr (t, w1)"
    and l: "debounce_loop t w1 = Inr w'"
    by (auto simp: debounce_def split: sum.splits)
  from m have 1: "trace w1 = trace w @ [Micros DebounceStart t]" by (auto simp: micros_effect)
  from debounce_loop_quiet [OF l] obtain e2 where 2: "trace w' = trace w1 @ e2" "quiet st lim e2"
    by blast
  from 1 2 have "trace w' = trace w @ (Micros DebounceStart t # e2)" by simp
  moreover from 2 have "quiet st lim (Micros DebounceStart t # e2)" by simp
  ultimately show ?thesis by blast
qed

lemma poll_shape_prepend:
  "quiet st lim pre \<Longrightarrow> poll_shape st lim b evs \<Longrightarrow> poll_shape st lim b (pre @ evs)"
  by (auto simp: poll_shape_def)

lemma poll_once_shape:
  "poll_once st lim w = Inr (p, w') \<Longrightarrow>
     \<exists>evs. trace w' = trace w @ evs \<and> poll_shape st lim (p = DeadlineExpired) evs"
  by (auto simp: poll_once_def micros_effect analogRead_effect digitalReads_effect poll_shape_def
      split: sum.splits if_splits prod.splits)

lemma get_one_response_shape:
  assumes "get_one_response st lim w = Inr (r, w')"
  shows "\<exists>evs. trace w' = trace w @ evs \<and> poll_shape st lim (r = None) evs"
  using assms
proof (induction rule: get_one_response_run)
  case (Deadline w w1)
  from poll_once_shape [OF this] show ?case by simp
next
  case (Tap w t w1)
  from poll_once_shape [OF this] show ?case by simp
next
  case (Wait w w1 r w')
  from poll_once_shape [OF Wait.hyps(1)] obtain e1
    where 1: "trace w1 = trace w @ e1" "quiet st lim e1" by (auto simp: poll_shape_def)
  from Wait.IH obtain e2 where 2: "trace w' = trace w1 @ e2" "poll_shape st lim (r = None) e2"
    by blast
  from 1 2 have "trace w' = trace w @ (e1 @ e2)" by simp
  moreover from 1 2 have "poll_shape st lim (r = None) (e1 @ e2)" by (simp add: poll_shape_prepend)
  ultimately show ?case by blast
qed

lemma get_responses_shape:
  assumes "get_responses target lim st k w = Inr (e, n, w')"
  shows "\<exists>evs. trace w' = trace w @ evs \<and> poll_shape st lim (e = DeadlineExit) evs"
  using assms
proof (induction rule: get_responses_run)
  case (Reached k w)
  then show ?case by (simp add: poll_shape_def)
next
  case (Deadline k w w1 w2)
  from debounce_quiet [OF Deadline(2), of st lim] obtain e1
    where 1: "trace w1 = trace w @ Led True # e1" "quiet st lim e1" by auto
  from get_one_response_shape [OF Deadline(3)] obtain e2
    where 2: "trace w2 = trace w1 @ Led False # e2" "poll_shape st lim True e2" by auto
  from 1 2 have "trace w2 = trace w @ ((Led True # e1 @ [Led False]) @ e2)" by simp
  moreover from 1 2 have "poll_shape st lim True ((Led True # e1 @ [Led False]) @ e2)"
    by (intro poll_shape_prepend) simp_all
  ultimately show ?case by auto
next
  case (Response k w w1 t w2 w3 e n w')
  from debounce_quiet [OF Response.hyps(2), of st lim] obtain e1
    where 1: "trace w1 = trace w @ Led True # e1" "quiet st lim e1" by auto
  from get_one_response_shape [OF Response.hyps(3)] obtain e2
    where 2: "trace w2 = trace w1 @ Led False # e2" "quiet st lim e2"
    by (auto simp: poll_shape_def)
  from Response.hyps(4) have 3: "trace w3 = trace w2 @ [Store (unat k) t]"
    by (auto simp: store_effect)
  from Response.IH obtain e4
    where 4: "trace w' = trace w3 @ e4" "poll_shape st lim (e = DeadlineExit) e4" by blast
  from 1 2 3 4
  have "trace w' = trace w @ ((Led True # e1 @ Led False # e2 @ [Store (unat k) t]) @ e4)"
    by simp
  moreover from 1 2 4
  have "poll_shape st lim (e = DeadlineExit) ((Led True # e1 @ Led False # e2 @ [Store (unat k) t]) @ e4)"
    by (intro poll_shape_prepend) simp_all
  ultimately show ?case by blast
qed

lemma timedPeek_board: "board (snd (timedPeek w)) = board w"
proof (induction w rule: timedPeek.induct)
  case (1 w)
  show ?case
  proof (cases "rx w")
    case (Cons c cs)
    then show ?thesis by (subst timedPeek.simps) simp
  next
    case Nil
    note rxNil = Nil
    show ?thesis
    proof (cases "wire w")
      case Nil
      with rxNil show ?thesis by (subst timedPeek.simps) simp
    next
      case (Cons b bs)
      with rxNil 1 have "board (snd (timedPeek (w\<lparr>rx := b, wire := bs\<rparr>))) = board w"
        by (simp add: board_def)
      with rxNil Cons show ?thesis by (subst timedPeek.simps) simp
    qed
  qed
qed

lemma timedPeek_board': "timedPeek w = (r, w') \<Longrightarrow> board w' = board w"
  using timedPeek_board [of w] by simp

lemma board_serial_read [simp]: "board (serial_read w) = board w"
  by (simp add: serial_read_def board_def)

lemma trace_serial_read [simp]: "trace (serial_read w) = trace w"
  by (simp add: serial_read_def)

lemma peekNextDigit_board: "board (snd (peekNextDigit w)) = board w"
proof (induction w rule: peekNextDigit.induct)
  case (1 w)
  obtain r w1 where tp: "timedPeek w = (r, w1)" by (cases "timedPeek w")
  note tr = timedPeek_board' [OF tp]
  show ?case
  proof (cases r)
    case None
    with tp tr show ?thesis by (subst peekNextDigit.simps) simp
  next
    case (Some c)
    show ?thesis
    proof (cases "c = CHR ''-'' \<or> is_digit c")
      case True
      with tp tr Some show ?thesis by (subst peekNextDigit.simps) auto
    next
      case False
      with "1.IH" [OF tp [symmetric] Some] have "board (snd (peekNextDigit (serial_read w1))) = board w1"
        by simp
      with tp tr Some False show ?thesis by (subst peekNextDigit.simps) simp
    qed
  qed
qed

lemma parse_digits_board: "board (snd (snd (parse_digits c v neg w))) = board w"
proof (induction c v neg w rule: parse_digits.induct)
  case (1 c v neg w)
  obtain r w1 where tp: "timedPeek (serial_read w) = (r, w1)" by (cases "timedPeek (serial_read w)")
  from timedPeek_board' [OF tp] have tr: "board w1 = board w" by simp
  show ?case
  proof (cases r)
    case None
    with tp tr show ?thesis by (subst parse_digits.simps) (simp add: Let_def)
  next
    case (Some d)
    show ?thesis
    proof (cases "is_digit d \<or> d = skipChar")
      case False
      with tp tr Some show ?thesis by (subst parse_digits.simps) (simp add: Let_def)
    next
      case True
      from "1.IH" [OF refl refl tp [symmetric] Some True]
      have "board (snd (snd (parse_digits d
         (if c = skipChar \<or> c = CHR ''-'' \<or> \<not> is_digit c then v else v * 10 + of_nat (of_char c) - 48)
         (if c \<noteq> skipChar \<and> c = CHR ''-'' then True else neg) w1))) = board w1" .
      with tp tr Some True show ?thesis by (subst parse_digits.simps) (simp add: Let_def)
    qed
  qed
qed

lemma parseInt_effect:
  assumes "parseInt w = (v, w')"
  shows "board w' = board (emit [ParseInt (rx w) v] w)"
proof -
  obtain r w1 where p: "peekNextDigit w = (r, w1)" by (cases "peekNextDigit w")
  with peekNextDigit_board [of w] have tr: "board w1 = board w" by simp
  show ?thesis
  proof (cases r)
    case None
    with assms p tr show ?thesis by (auto simp: parseInt_def board_def emit_def)
  next
    case (Some c)
    obtain u neg w2 where d: "parse_digits c 0 False w1 = (u, neg, w2)"
      by (cases "parse_digits c 0 False w1") auto
    with parse_digits_board [of c 0 False w1] tr have "board w2 = board w" by simp
    with assms p Some d show ?thesis by (auto simp: parseInt_def Let_def board_def emit_def)
  qed
qed

lemma parseInt_trace:
  "parseInt w = (v, w') \<Longrightarrow> trace w' = trace w @ [ParseInt (rx w) v]"
  by (drule parseInt_effect) (simp add: board_def emit_def)

lemma parseInt_clock: "parseInt w = (v, w') \<Longrightarrow> clock w' = clock w"
  by (drule parseInt_effect) (simp add: board_def emit_def)

lemma discard_stale_effect:
  "discard_stale w = w\<lparr>rx := [], trace := trace w @ map Discarded (rx w)\<rparr>"
proof (induction w rule: discard_stale.induct)
  case (1 w)
  show ?case
  proof (cases "rx w")
    case Nil
    then show ?thesis by (subst discard_stale.simps) simp
  next
    case (Cons c cs)
    with 1 show ?thesis
      by (subst discard_stale.simps) (simp add: emit_def serial_read_def)
  qed
qed

lemma get_params_trace:
  assumes "get_params w = (c, ms, w')"
  shows "\<exists>buffered. trace w' = trace w @ map Discarded (rx w) @ [ParseInt [] c, ParseInt buffered ms]"
proof -
  from assms obtain w1 where 1: "parseInt (discard_stale w) = (c, w1)"
    and 2: "parseInt w1 = (ms, w')"
    by (auto simp: get_params_def split: prod.splits)
  from parseInt_trace [OF 1] parseInt_trace [OF 2] show ?thesis
    by (simp add: discard_stale_effect)
qed

lemma get_params_clock:
  assumes "get_params w = (c, ms, w')"
  shows "clock w' = clock w"
proof -
  from assms obtain w1 where 1: "parseInt (discard_stale w) = (c, w1)"
    and 2: "parseInt w1 = (ms, w')"
    by (auto simp: get_params_def split: prod.splits)
  from parseInt_clock [OF 1] parseInt_clock [OF 2] show ?thesis
    by (simp add: discard_stale_effect)
qed

lemma loop_Inr:
  "loop w = Inr (l, w') \<longleftrightarrow>
     (\<exists>c ms w1 start w2 e n w3.
        get_params (digitalWrite True w) = (c, ms, w1) \<and>
        micros TrialStart w1 = Inr (start, w2) \<and>
        get_responses (clamp_target c) (ms * 1000) start 0 w2 = Inr (e, n, w3) \<and>
        report (clamp_target c) ms start n w3 = Inr w' \<and>
        l = \<lparr>respCountTarget = clamp_target c, respTLimit_ms = ms, respTLimit = ms * 1000,
              respCount = n, t0 = start, ending = e\<rparr>)"
  by (auto simp: loop_def Let_def split: prod.splits sum.splits)

lemma report_trace:
  assumes "report target ms start n w = Inr w'"
  shows "\<exists>tEnd. trace w' = trace w @
           [PrintNum target, PrintStr '' '', PrintNum ms, PrintStr '' '',
            PrintNum start, PrintStr '' '', PrintNum (ucast n), PrintStr '' ''] @
           concat (map (\<lambda>r. [PrintNum r, PrintStr '' '']) (relative_timestamps start n w)) @
           [Micros ReportEnd tEnd, PrintNum tEnd, PrintLn ''.'']"
    and "unat n \<le> MaxRespCount"
  using assms
  by (auto simp: report_def Let_def micros_effect relative_timestamps_def emit_def
      split: if_splits sum.splits)

lemma clamp_target_le: "unat (clamp_target c) \<le> MaxRespCount"
  by (auto simp: clamp_target_def MaxRespCount_def word_less_nat_alt)

lemma clamp_target_min: "unat (clamp_target c) = min (unat c) MaxRespCount"
  by (auto simp: clamp_target_def MaxRespCount_def word_less_nat_alt)

lemma loop_fault: "loop w = Inl f \<Longrightarrow> f = InputExhausted"
proof -
  assume a: "loop w = Inl f"
  obtain c ms w1 where p: "get_params (digitalWrite True w) = (c, ms, w1)"
    by (cases "get_params (digitalWrite True w)") auto
  show ?thesis
  proof (cases "micros TrialStart w1")
    case (Inl g)
    with a p micros_fault [OF Inl] show ?thesis by (simp add: loop_def)
  next
    case (Inr b)
    then obtain start w2 where m: "micros TrialStart w1 = Inr (start, w2)" by (cases b) auto
    show ?thesis
    proof (cases "get_responses (clamp_target c) (ms * 1000) start 0 w2")
      case (Inl g)
      from get_responses_fault [OF clamp_target_le Inl] a p m Inl show ?thesis
        by (simp add: loop_def)
    next
      case (Inr r)
      then obtain e n w3 where g: "get_responses (clamp_target c) (ms * 1000) start 0 w2 = Inr (e, n, w3)"
        by (cases r) auto
      from get_responses_count [OF g] clamp_target_le [of c] have "unat n \<le> MaxRespCount"
        by simp
      with a p m g show ?thesis
        by (auto simp: loop_def report_def Let_def split: sum.splits dest: micros_fault)
    qed
  qed
qed

lemma fields_report_rows [simp]:
  "fields (concat (map (\<lambda>r. [PrintNum r, PrintStr s]) rs)) = rs"
  by (induction rs) simp_all

lemma no_deadline_report_rows [simp]:
  "list_ex (deadline_seen st lim) (concat (map (\<lambda>r. [PrintNum r, PrintStr s]) rs)) = False"
  by (induction rs) simp_all

lemma quiet_no_deadline: "quiet st lim evs \<Longrightarrow> \<not> list_ex (deadline_seen st lim) evs"
  by (simp add: quiet_def list_all_iff list_ex_iff)

lemma poll_shape_fields: "poll_shape st lim b evs \<Longrightarrow> fields evs = []"
  by (auto simp: poll_shape_def quiet_def split: if_splits)

lemma poll_shape_deadline:
  "poll_shape st lim b evs \<Longrightarrow> list_ex (deadline_seen st lim) evs = b"
  by (auto simp: poll_shape_def dest: quiet_no_deadline split: if_splits)

lemma report_respTAbs: "report target ms start n w = Inr w' \<Longrightarrow> respTAbs w' = respTAbs w"
  by (auto simp: report_def Let_def micros_effect emit_def split: if_splits sum.splits)

lemma relative_timestamps_cong:
  "respTAbs w' = respTAbs w \<Longrightarrow> relative_timestamps st n w' = relative_timestamps st n w"
  by (simp add: relative_timestamps_def)

lemma since_append [simp]: "trace w' = trace w @ evs \<Longrightarrow> since w w' = evs"
  by (simp add: since_def)

lemma no_deadline_serial [simp]:
  "list_ex (deadline_seen st lim) (map Discarded cs) = False"
  by (induction cs) simp_all

lemma fields_serial [simp]: "fields (map Discarded cs) = []"
  by (induction cs) simp_all

lemma loop_trace:
  assumes "loop w = Inr (l, w')"
  shows "\<exists>ser coll tEnd.
          since w w' = Led True # ser @ Micros TrialStart (t0 l) # coll @
            [PrintNum (respCountTarget l), PrintStr '' '', PrintNum (respTLimit_ms l), PrintStr '' '',
             PrintNum (t0 l), PrintStr '' '', PrintNum (ucast (respCount l)), PrintStr '' ''] @
            concat (map (\<lambda>r. [PrintNum r, PrintStr '' ''])
                        (relative_timestamps (t0 l) (respCount l) w')) @
            [Micros ReportEnd tEnd, PrintNum tEnd, PrintLn ''.''] \<and>
          fields ser = [] \<and> \<not> list_ex (deadline_seen (t0 l) (respTLimit l)) ser \<and>
          poll_shape (t0 l) (respTLimit l) (ending l = DeadlineExit) coll"
proof -
  from assms obtain c ms w1 start w2 e n w3 where
    p: "get_params (digitalWrite True w) = (c, ms, w1)" and
    m: "micros TrialStart w1 = Inr (start, w2)" and
    g: "get_responses (clamp_target c) (ms * 1000) start 0 w2 = Inr (e, n, w3)" and
    r: "report (clamp_target c) ms start n w3 = Inr w'" and
    l: "l = \<lparr>respCountTarget = clamp_target c, respTLimit_ms = ms, respTLimit = ms * 1000,
              respCount = n, t0 = start, ending = e\<rparr>"
    unfolding loop_Inr by blast
  from get_params_trace [OF p] obtain buffered where
    1: "trace w1 = trace w @ Led True # map Discarded (rx w) @ [ParseInt [] c, ParseInt buffered ms]"
    by (auto simp: digitalWrite_def emit_def)
  from m have 2: "trace w2 = trace w1 @ [Micros TrialStart start]" by (auto simp: micros_effect)
  from get_responses_shape [OF g] obtain coll where
    3: "trace w3 = trace w2 @ coll" "poll_shape start (ms * 1000) (e = DeadlineExit) coll"
    by blast
  from report_trace(1) [OF r] obtain tEnd where
    4: "trace w' = trace w3 @
           [PrintNum (clamp_target c), PrintStr '' '', PrintNum ms, PrintStr '' '',
            PrintNum start, PrintStr '' '', PrintNum (ucast n), PrintStr '' ''] @
           concat (map (\<lambda>r. [PrintNum r, PrintStr '' '']) (relative_timestamps start n w3)) @
           [Micros ReportEnd tEnd, PrintNum tEnd, PrintLn ''.'']" by blast
  have rel: "relative_timestamps start n w' = relative_timestamps start n w3"
    using report_respTAbs [OF r] by (rule relative_timestamps_cong)
  let ?ser = "map Discarded (rx w) @ [ParseInt [] c, ParseInt buffered ms]"
  from 1 2 3 4 rel l have "trace w' = trace w @ (Led True # ?ser @ Micros TrialStart (t0 l) # coll @
            [PrintNum (respCountTarget l), PrintStr '' '', PrintNum (respTLimit_ms l), PrintStr '' '',
             PrintNum (t0 l), PrintStr '' '', PrintNum (ucast (respCount l)), PrintStr '' ''] @
            concat (map (\<lambda>r. [PrintNum r, PrintStr '' ''])
                        (relative_timestamps (t0 l) (respCount l) w')) @
            [Micros ReportEnd tEnd, PrintNum tEnd, PrintLn ''.''])"
    by simp
  then have "since w w' = Led True # ?ser @ Micros TrialStart (t0 l) # coll @
            [PrintNum (respCountTarget l), PrintStr '' '', PrintNum (respTLimit_ms l), PrintStr '' '',
             PrintNum (t0 l), PrintStr '' '', PrintNum (ucast (respCount l)), PrintStr '' ''] @
            concat (map (\<lambda>r. [PrintNum r, PrintStr '' ''])
                        (relative_timestamps (t0 l) (respCount l) w')) @
            [Micros ReportEnd tEnd, PrintNum tEnd, PrintLn ''.'']"
    by (rule since_append)
  moreover have "fields ?ser = []" "\<not> list_ex (deadline_seen (t0 l) (respTLimit l)) ?ser"
    by simp_all
  moreover from 3 l have "poll_shape (t0 l) (respTLimit l) (ending l = DeadlineExit) coll"
    by simp
  ultimately show ?thesis by blast
qed

lemma loop_fields:
  assumes "loop w = Inr (l, w')"
  shows "\<exists>tEnd. fields (since w w') =
           [respCountTarget l, respTLimit_ms l, t0 l, ucast (respCount l)] @
           relative_timestamps (t0 l) (respCount l) w' @ [tEnd]"
proof -
  from loop_trace [OF assms] obtain ser coll tEnd where
    s: "since w w' = Led True # ser @ Micros TrialStart (t0 l) # coll @
            [PrintNum (respCountTarget l), PrintStr '' '', PrintNum (respTLimit_ms l), PrintStr '' '',
             PrintNum (t0 l), PrintStr '' '', PrintNum (ucast (respCount l)), PrintStr '' ''] @
            concat (map (\<lambda>r. [PrintNum r, PrintStr '' ''])
                        (relative_timestamps (t0 l) (respCount l) w')) @
            [Micros ReportEnd tEnd, PrintNum tEnd, PrintLn ''.'']"
    and f: "fields ser = []"
    and c: "poll_shape (t0 l) (respTLimit l) (ending l = DeadlineExit) coll" by blast
  from poll_shape_fields [OF c] f show ?thesis unfolding s by simp
qed

lemma loop_deadline_seen:
  assumes "loop w = Inr (l, w')"
  shows "list_ex (deadline_seen (t0 l) (respTLimit l)) (since w w') \<longleftrightarrow> ending l = DeadlineExit"
proof -
  from loop_trace [OF assms] obtain ser coll tEnd where
    s: "since w w' = Led True # ser @ Micros TrialStart (t0 l) # coll @
            [PrintNum (respCountTarget l), PrintStr '' '', PrintNum (respTLimit_ms l), PrintStr '' '',
             PrintNum (t0 l), PrintStr '' '', PrintNum (ucast (respCount l)), PrintStr '' ''] @
            concat (map (\<lambda>r. [PrintNum r, PrintStr '' ''])
                        (relative_timestamps (t0 l) (respCount l) w')) @
            [Micros ReportEnd tEnd, PrintNum tEnd, PrintLn ''.'']"
    and f: "\<not> list_ex (deadline_seen (t0 l) (respTLimit l)) ser"
    and c: "poll_shape (t0 l) (respTLimit l) (ending l = DeadlineExit) coll" by blast
  from poll_shape_deadline [OF c] f show ?thesis unfolding s by simp
qed

lemma loop_count:
  assumes "loop w = Inr (l, w')"
  shows "unat (respCount l) \<le> unat (respCountTarget l)"
    and "ending l = TargetReached \<Longrightarrow> unat (respCount l) = unat (respCountTarget l)"
proof -
  from assms obtain c ms w1 start w2 e n w3 where
    g: "get_responses (clamp_target c) (ms * 1000) start 0 w2 = Inr (e, n, w3)" and
    l: "l = \<lparr>respCountTarget = clamp_target c, respTLimit_ms = ms, respTLimit = ms * 1000,
              respCount = n, t0 = start, ending = e\<rparr>"
    unfolding loop_Inr by blast
  from get_responses_count [OF g] l
  show "unat (respCount l) \<le> unat (respCountTarget l)"
    and "ending l = TargetReached \<Longrightarrow> unat (respCount l) = unat (respCountTarget l)"
    by simp_all
qed

lemma unat_micros_at: "unat (micros_at n) = n mod 2 ^ 32"
  by (simp add: micros_at_def unat_of_nat)

lemma elapsed_micros_at:
  assumes "start \<le> now" "now - start < 2 ^ 32"
  shows "elapsed (micros_at now) (micros_at start) = of_nat (now - start)"
    and "unat (elapsed (micros_at now) (micros_at start)) = now - start"
proof -
  from assms(1) show eq: "elapsed (micros_at now) (micros_at start) = of_nat (now - start)"
    by (simp add: elapsed_def micros_at_def)
  from assms(2) show "unat (elapsed (micros_at now) (micros_at start)) = now - start"
    unfolding eq by (simp add: unat_of_nat)
qed



lemma loop_trace_report:
  assumes "loop w = Inr (l, w')"
  shows "\<exists>ser coll tEnd.
          since w w' = Led True # ser @ Micros TrialStart (t0 l) # coll @ report_of l w' tEnd \<and>
          fields ser = [] \<and> \<not> list_ex (deadline_seen (t0 l) (respTLimit l)) ser \<and>
          poll_shape (t0 l) (respTLimit l) (ending l = DeadlineExit) coll"
  using loop_trace [OF assms] unfolding report_of_def by simp


lemma report_of_no_store [simp]: "\<not> list_ex is_store (report_of l w tEnd)"
proof -
  have "\<not> list_ex is_store (concat (map (\<lambda>r. [PrintNum r, PrintStr s]) rs))" for s rs
    by (induction rs) simp_all
  then show ?thesis by (simp add: report_of_def)
qed






lemma debounce_body_frame:
  "debounce_body t w = Inr (t', w') \<Longrightarrow>
     respTAbs w' = respTAbs w \<and> (\<exists>cs. clock w = cs @ clock w')"
  by (auto simp: debounce_body_def analogRead_effect micros_effect emit_def
      split: sum.splits if_splits)

lemma debounce_loop_frame:
  assumes "debounce_loop t w = Inr w'"
  shows "respTAbs w' = respTAbs w \<and> (\<exists>cs. clock w = cs @ clock w')"
  using assms
proof (induction rule: debounce_loop_run)
  case (Done t w now w1)
  then show ?case by (auto simp: micros_effect emit_def)
next
  case (Again t w now w1 t' w2 w')
  from Again.hyps(1) have "respTAbs w1 = respTAbs w" "clock w = [now] @ clock w1"
    by (auto simp: micros_effect emit_def)
  moreover from debounce_body_frame [OF Again.hyps(3)] obtain cs
    where "respTAbs w2 = respTAbs w1" "clock w1 = cs @ clock w2" by blast
  moreover from Again.IH obtain cs' where "respTAbs w' = respTAbs w2" "clock w2 = cs' @ clock w'"
    by blast
  ultimately have "respTAbs w' = respTAbs w" "clock w = ([now] @ cs @ cs') @ clock w'" by simp_all
  then show ?case by blast
qed

lemma debounce_frame:
  assumes "debounce w = Inr w'"
  shows "respTAbs w' = respTAbs w \<and> (\<exists>cs. clock w = cs @ clock w')"
proof -
  from assms obtain t w1 where m: "micros DebounceStart w = Inr (t, w1)"
    and l: "debounce_loop t w1 = Inr w'"
    by (auto simp: debounce_def split: sum.splits)
  from m have "respTAbs w1 = respTAbs w" "clock w = [t] @ clock w1"
    by (auto simp: micros_effect emit_def)
  moreover from debounce_loop_frame [OF l] obtain cs
    where "respTAbs w' = respTAbs w1" "clock w1 = cs @ clock w'" by blast
  ultimately have "respTAbs w' = respTAbs w" "clock w = ([t] @ cs) @ clock w'" by simp_all
  then show ?thesis by blast
qed

lemma poll_once_frame:
  "poll_once st lim w = Inr (p, w') \<Longrightarrow>
     respTAbs w' = respTAbs w \<and>
     (\<exists>t. clock w = t # clock w' \<and> (\<forall>u. p = TapDetected u \<longrightarrow> u = t \<and> elapsed t st < lim))"
  by (auto simp: poll_once_def micros_effect analogRead_effect digitalReads_effect emit_def
      split: sum.splits if_splits prod.splits)

lemma get_one_response_frame:
  assumes "get_one_response st lim w = Inr (r, w')"
  shows "respTAbs w' = respTAbs w \<and>
         (\<exists>cs t. clock w = cs @ t # clock w' \<and> (\<forall>u. r = Some u \<longrightarrow> u = t \<and> elapsed t st < lim))"
  using assms
proof (induction rule: get_one_response_run)
  case (Deadline w w1)
  from poll_once_frame [OF this] show ?case by auto
next
  case (Tap w t w1)
  from poll_once_frame [OF this] have "respTAbs w1 = respTAbs w"
    "clock w = [] @ t # clock w1" "elapsed t st < lim" by auto
  then show ?case by blast
next
  case (Wait w w1 r w')
  from poll_once_frame [OF Wait.hyps(1)] obtain t where
    1: "respTAbs w1 = respTAbs w" "clock w = t # clock w1" by auto
  from Wait.IH obtain cs t' where 2: "respTAbs w' = respTAbs w1" "clock w1 = cs @ t' # clock w'"
    "\<forall>u. r = Some u \<longrightarrow> u = t' \<and> elapsed t' st < lim" by blast
  from 1 2 have "respTAbs w' = respTAbs w" "clock w = (t # cs) @ t' # clock w'" by simp_all
  with 2(3) show ?case by blast
qed

lemma sorted_map_drop_middle:
  "sorted (map f (xs @ ys @ zs)) \<Longrightarrow> sorted (map f (xs @ zs))"
  by (auto simp: sorted_append)

lemma get_responses_ordered:
  assumes "get_responses target lim st k w = Inr (e, n, w')"
  shows "sorted (map (\<lambda>c. unat (elapsed c st)) (timeline k w)) \<Longrightarrow>
         sorted (map (\<lambda>c. unat (elapsed c st)) (timeline n w'))"
  using assms
proof (induction rule: get_responses_run)
  case (Reached k w)
  then show ?case by simp
next
  case (Deadline k w w1 w2)
  from debounce_frame [OF Deadline.hyps(2)] obtain cs1 where
    1: "respTAbs w1 = respTAbs w" "clock w = cs1 @ clock w1"
    by (auto simp: digitalWrite_def emit_def)
  from get_one_response_frame [OF Deadline.hyps(3)] obtain cs2 t where
    2: "respTAbs w2 = respTAbs w1" "clock w1 = cs2 @ t # clock w2"
    by (auto simp: digitalWrite_def emit_def)
  from 1 2 have "timeline k w = map (respTAbs w2) [0..<unat k] @ (cs1 @ cs2 @ [t]) @ clock w2"
    by (simp add: timeline_def)
  with Deadline.prems have "sorted (map (\<lambda>c. unat (elapsed c st))
      (map (respTAbs w2) [0..<unat k] @ (cs1 @ cs2 @ [t]) @ clock w2))" by simp
  then show ?case unfolding timeline_def by (rule sorted_map_drop_middle)
next
  case (Response k w w1 t w2 w3 e n w')
  from debounce_frame [OF Response.hyps(2)] obtain cs1 where
    1: "respTAbs w1 = respTAbs w" "clock w = cs1 @ clock w1"
    by (auto simp: digitalWrite_def emit_def)
  from get_one_response_frame [OF Response.hyps(3)] obtain cs2 where
    2: "respTAbs w2 = respTAbs w1" "clock w1 = cs2 @ t # clock w2"
    by (auto simp: digitalWrite_def emit_def)
  from Response.hyps(4) have 3: "unat k < MaxRespCount"
    "respTAbs w3 = (respTAbs w2)(unat k := t)" "clock w3 = clock w2"
    by (auto simp: store_effect emit_def)
  from 3(1) have k1: "unat (k + 1) = unat k + 1"
    by (simp add: MaxRespCount_def unat_word_ariths)
  have "map (respTAbs w3) [0..<unat (k + 1)] = map (respTAbs w) [0..<unat k] @ [t]"
    using 1 2 3 k1 by simp
  then have tl3: "timeline (k + 1) w3 = map (respTAbs w) [0..<unat k] @ t # clock w2"
    using 3 by (simp add: timeline_def)
  from 1 2 have "timeline k w = map (respTAbs w) [0..<unat k] @ (cs1 @ cs2) @ t # clock w2"
    by (simp add: timeline_def)
  with Response.prems have "sorted (map (\<lambda>c. unat (elapsed c st))
      (map (respTAbs w) [0..<unat k] @ (cs1 @ cs2) @ t # clock w2))" by simp
  then have "sorted (map (\<lambda>c. unat (elapsed c st)) (timeline (k + 1) w3))"
    unfolding tl3 by (rule sorted_map_drop_middle)
  then show ?case by (rule Response.IH)
qed

lemma get_responses_within_limit:
  assumes "get_responses target lim st k w = Inr (e, n, w')"
  shows "(\<forall>i<unat k. elapsed (respTAbs w i) st < lim) \<Longrightarrow>
         (\<forall>i<unat n. elapsed (respTAbs w' i) st < lim)"
  using assms
proof (induction rule: get_responses_run)
  case (Reached k w)
  then show ?case by simp
next
  case (Deadline k w w1 w2)
  from debounce_frame [OF Deadline.hyps(2)] get_one_response_frame [OF Deadline.hyps(3)]
  have "respTAbs w2 = respTAbs w" by (auto simp: digitalWrite_def emit_def)
  with Deadline.prems show ?case by simp
next
  case (Response k w w1 t w2 w3 e n w')
  from debounce_frame [OF Response.hyps(2)] get_one_response_frame [OF Response.hyps(3)]
  have 1: "respTAbs w2 = respTAbs w" "elapsed t st < lim"
    by (auto simp: digitalWrite_def emit_def)
  from Response.hyps(4) have 3: "unat k < MaxRespCount"
    "respTAbs w3 = (respTAbs w2)(unat k := t)"
    by (auto simp: store_effect emit_def)
  from 3(1) have k1: "unat (k + 1) = unat k + 1"
    by (simp add: MaxRespCount_def unat_word_ariths)
  have "\<forall>i<unat (k + 1). elapsed (respTAbs w3 i) st < lim"
    using 1 3 k1 Response.prems by (auto simp: less_Suc_eq)
  then show ?case by (rule Response.IH)
qed

lemma sorted_clock_values:
  assumes "sorted ts" and "\<forall>t\<in>set ts. t < hd ts + 2 ^ 32"
  shows "sorted (map (\<lambda>c. unat (elapsed c (micros_at (hd ts)))) (map micros_at ts))"
proof -
  have rel: "unat (elapsed (micros_at t) (micros_at (hd ts))) = t - hd ts" if "t \<in> set ts" for t
  proof -
    from that assms(1) have "hd ts \<le> t" by (cases ts) auto
    moreover from that assms(2) have "t - hd ts < 2 ^ 32" by auto
    ultimately show ?thesis by (rule elapsed_micros_at(2))
  qed
  have "map (\<lambda>c. unat (elapsed c (micros_at (hd ts)))) (map micros_at ts) = map (\<lambda>t. t - hd ts) ts"
    unfolding map_map by (rule map_cong) (simp_all add: rel)
  moreover have "sorted xs \<Longrightarrow> sorted (map (\<lambda>t. t - c) xs)" for xs :: "nat list" and c
    by (induction xs) (auto intro: diff_le_mono)
  then have "sorted (map (\<lambda>t. t - hd ts) ts)" using assms(1) by blast
  ultimately show ?thesis by (simp only:)
qed

lemma unat_times_1000: "unat (ms * 1000 :: ulong) \<le> unat ms * 1000"
proof -
  have "unat (ms * 1000) = (unat ms * 1000) mod 2 ^ 32"
    by (simp add: unat_word_ariths)
  then show ?thesis by simp
qed

lemma upt_0_2: "[0..<2] = [0, Suc 0]"
  by (simp add: upt_rec numeral_2_eq_2)

lemma no_store_below: "\<not> list_ex is_store evs \<Longrightarrow> list_all (stored_below n) evs"
proof (induction evs)
  case Nil
  then show ?case by simp
next
  case (Cons ev evs)
  then show ?case by (cases ev) simp_all
qed

lemma debounce_body_no_store:
  "debounce_body t w = Inr (t', w') \<Longrightarrow> \<exists>evs. trace w' = trace w @ evs \<and> \<not> list_ex is_store evs"
  by (auto simp: debounce_body_def micros_effect analogRead_effect split: sum.splits if_splits)

lemma debounce_loop_no_store:
  assumes "debounce_loop t w = Inr w'"
  shows "\<exists>evs. trace w' = trace w @ evs \<and> \<not> list_ex is_store evs"
  using assms
proof (induction rule: debounce_loop_run)
  case (Done t w now w1)
  then show ?case by (auto simp: micros_effect)
next
  case (Again t w now w1 t' w2 w')
  from Again.hyps(1) have 1: "trace w1 = trace w @ [Micros DebounceCheck now]"
    by (auto simp: micros_effect)
  from debounce_body_no_store [OF Again.hyps(3)] obtain e2
    where 2: "trace w2 = trace w1 @ e2" "\<not> list_ex is_store e2" by blast
  from Again.IH obtain e3 where 3: "trace w' = trace w2 @ e3" "\<not> list_ex is_store e3" by blast
  from 1 2 3 have "trace w' = trace w @ (Micros DebounceCheck now # e2 @ e3)" by simp
  moreover from 2 3 have "\<not> list_ex is_store (Micros DebounceCheck now # e2 @ e3)" by simp
  ultimately show ?case by blast
qed

lemma debounce_no_store:
  assumes "debounce w = Inr w'"
  shows "\<exists>evs. trace w' = trace w @ evs \<and> \<not> list_ex is_store evs"
proof -
  from assms obtain t w1 where m: "micros DebounceStart w = Inr (t, w1)"
    and l: "debounce_loop t w1 = Inr w'"
    by (auto simp: debounce_def split: sum.splits)
  from m have 1: "trace w1 = trace w @ [Micros DebounceStart t]" by (auto simp: micros_effect)
  from debounce_loop_no_store [OF l] obtain e2
    where 2: "trace w' = trace w1 @ e2" "\<not> list_ex is_store e2" by blast
  from 1 2 have "trace w' = trace w @ (Micros DebounceStart t # e2)" by simp
  moreover from 2 have "\<not> list_ex is_store (Micros DebounceStart t # e2)" by simp
  ultimately show ?thesis by blast
qed

lemma poll_once_no_store:
  "poll_once st lim w = Inr (p, w') \<Longrightarrow> \<exists>evs. trace w' = trace w @ evs \<and> \<not> list_ex is_store evs"
  by (auto simp: poll_once_def micros_effect analogRead_effect digitalReads_effect
      split: sum.splits if_splits prod.splits)

lemma get_one_response_no_store:
  assumes "get_one_response st lim w = Inr (r, w')"
  shows "\<exists>evs. trace w' = trace w @ evs \<and> \<not> list_ex is_store evs"
  using assms
proof (induction rule: get_one_response_run)
  case (Deadline w w1)
  then show ?case by (rule poll_once_no_store)
next
  case (Tap w t w1)
  then show ?case by (rule poll_once_no_store)
next
  case (Wait w w1 r w')
  from poll_once_no_store [OF Wait.hyps(1)] obtain e1
    where 1: "trace w1 = trace w @ e1" "\<not> list_ex is_store e1" by blast
  from Wait.IH obtain e2 where 2: "trace w' = trace w1 @ e2" "\<not> list_ex is_store e2" by blast
  from 1 2 have "trace w' = trace w @ (e1 @ e2)" by simp
  moreover from 1 2 have "\<not> list_ex is_store (e1 @ e2)" by simp
  ultimately show ?case by blast
qed

lemma get_responses_stores:
  assumes "get_responses target lim st k w = Inr (e, n, w')"
  shows "\<exists>evs. trace w' = trace w @ evs \<and> list_all (stored_below (unat target)) evs"
  using assms
proof (induction rule: get_responses_run)
  case (Reached k w)
  then show ?case by simp
next
  case (Deadline k w w1 w2)
  from debounce_no_store [OF Deadline(2)] obtain e1
    where 1: "trace w1 = trace w @ Led True # e1" "\<not> list_ex is_store e1" by auto
  from get_one_response_no_store [OF Deadline(3)] obtain e2
    where 2: "trace w2 = trace w1 @ Led False # e2" "\<not> list_ex is_store e2" by auto
  from 1 2 have "trace w2 = trace w @ (Led True # e1 @ Led False # e2)" by simp
  moreover from 1 2 have "list_all (stored_below (unat target)) (Led True # e1 @ Led False # e2)"
    by (simp add: no_store_below)
  ultimately show ?case by blast
next
  case (Response k w w1 t w2 w3 e n w')
  from debounce_no_store [OF Response.hyps(2)] obtain e1
    where 1: "trace w1 = trace w @ Led True # e1" "\<not> list_ex is_store e1" by auto
  from get_one_response_no_store [OF Response.hyps(3)] obtain e2
    where 2: "trace w2 = trace w1 @ Led False # e2" "\<not> list_ex is_store e2" by auto
  from Response.hyps(4) have 3: "trace w3 = trace w2 @ [Store (unat k) t]"
    by (auto simp: store_effect)
  from Response.hyps(1) have k: "unat k < unat target" by (simp add: ucast_less_iff)
  from Response.IH obtain e4
    where 4: "trace w' = trace w3 @ e4" "list_all (stored_below (unat target)) e4" by blast
  from 1 2 3 4
  have "trace w' = trace w @ (Led True # e1 @ Led False # e2 @ Store (unat k) t # e4)"
    by simp
  moreover from 1 2 4 k
  have "list_all (stored_below (unat target)) (Led True # e1 @ Led False # e2 @ Store (unat k) t # e4)"
    by (simp add: no_store_below)
  ultimately show ?case by blast
qed

lemma loop_stores:
  assumes "loop w = Inr (l, w')"
  shows "list_all (stored_below (unat (respCountTarget l))) (since w w')"
proof -
  from loop_trace_report [OF assms] obtain ser coll tEnd where
    s: "since w w' = Led True # ser @ Micros TrialStart (t0 l) # coll @ report_of l w' tEnd"
    by blast
  from assms obtain c ms w1 start w2 e n w3 where
    p: "get_params (digitalWrite True w) = (c, ms, w1)" and
    m: "micros TrialStart w1 = Inr (start, w2)" and
    g: "get_responses (clamp_target c) (ms * 1000) start 0 w2 = Inr (e, n, w3)" and
    r: "report (clamp_target c) ms start n w3 = Inr w'" and
    l: "l = \<lparr>respCountTarget = clamp_target c, respTLimit_ms = ms, respTLimit = ms * 1000,
              respCount = n, t0 = start, ending = e\<rparr>"
    unfolding loop_Inr by blast
  from get_params_trace [OF p] obtain buffered where
    1: "trace w1 = trace w @ Led True # map Discarded (rx w) @ [ParseInt [] c, ParseInt buffered ms]"
    by (auto simp: digitalWrite_def emit_def)
  from m have 2: "trace w2 = trace w1 @ [Micros TrialStart start]" by (auto simp: micros_effect)
  from get_responses_stores [OF g] obtain coll' where
    3: "trace w3 = trace w2 @ coll'" "list_all (stored_below (unat (clamp_target c))) coll'"
    by blast
  from report_trace(1) [OF r] obtain rep where 4: "trace w' = trace w3 @ rep"
    "\<not> list_ex is_store rep"
    using report_of_no_store [of l w3] by (auto simp: report_of_def l)
  have ser: "\<not> list_ex is_store (map Discarded cs)" for cs by (induction cs) simp_all
  from 1 2 3 4 have "since w w' = (Led True # map Discarded (rx w) @
      [ParseInt [] c, ParseInt buffered ms, Micros TrialStart start]) @ coll' @ rep"
    by (simp add: since_def)
  with 3 4 ser l show ?thesis by (simp add: no_store_below)
qed

lemma get_responses_store_count:
  assumes "get_responses target lim st k w = Inr (e, n, w')"
  shows "\<exists>evs. trace w' = trace w @ evs \<and> unat k + length (filter is_store evs) = unat n"
  using assms
proof (induction rule: get_responses_run)
  case (Reached k w)
  then show ?case by simp
next
  case (Deadline k w w1 w2)
  from debounce_no_store [OF Deadline(2)] obtain e1
    where 1: "trace w1 = trace w @ Led True # e1" "\<not> list_ex is_store e1" by auto
  from get_one_response_no_store [OF Deadline(3)] obtain e2
    where 2: "trace w2 = trace w1 @ Led False # e2" "\<not> list_ex is_store e2" by auto
  from 1 2 have "trace w2 = trace w @ (Led True # e1 @ Led False # e2)" by simp
  moreover from 1 2 have "filter is_store (Led True # e1 @ Led False # e2) = []"
    by (simp add: list_ex_iff filter_empty_conv)
  ultimately show ?case by auto
next
  case (Response k w w1 t w2 w3 e n w')
  from debounce_no_store [OF Response.hyps(2)] obtain e1
    where 1: "trace w1 = trace w @ Led True # e1" "\<not> list_ex is_store e1" by auto
  from get_one_response_no_store [OF Response.hyps(3)] obtain e2
    where 2: "trace w2 = trace w1 @ Led False # e2" "\<not> list_ex is_store e2" by auto
  from Response.hyps(4) have 3: "trace w3 = trace w2 @ [Store (unat k) t]"
    and ok: "unat k < MaxRespCount" by (auto simp: store_effect)
  from ok have k1: "unat (k + 1) = unat k + 1"
    by (simp add: MaxRespCount_def unat_word_ariths)
  from Response.IH obtain e4
    where 4: "trace w' = trace w3 @ e4" "unat (k + 1) + length (filter is_store e4) = unat n"
    by blast
  from 1 2 3 4
  have "trace w' = trace w @ (Led True # e1 @ Led False # e2 @ Store (unat k) t # e4)"
    by simp
  moreover from 1 2
  have "filter is_store (Led True # e1 @ Led False # e2 @ Store (unat k) t # e4) =
      Store (unat k) t # filter is_store e4"
    by (simp add: list_ex_iff filter_empty_conv)
  ultimately show ?case using 4(2) k1 by auto
qed

lemma loop_store_count:
  assumes "loop w = Inr (l, w')"
  shows "length (filter is_store (since w w')) = unat (respCount l)"
proof -
  from assms obtain c ms w1 start w2 e n w3 where
    p: "get_params (digitalWrite True w) = (c, ms, w1)" and
    m: "micros TrialStart w1 = Inr (start, w2)" and
    g: "get_responses (clamp_target c) (ms * 1000) start 0 w2 = Inr (e, n, w3)" and
    r: "report (clamp_target c) ms start n w3 = Inr w'" and
    l: "l = \<lparr>respCountTarget = clamp_target c, respTLimit_ms = ms, respTLimit = ms * 1000,
              respCount = n, t0 = start, ending = e\<rparr>"
    unfolding loop_Inr by blast
  from get_params_trace [OF p] obtain buffered where
    1: "trace w1 = trace w @ Led True # map Discarded (rx w) @ [ParseInt [] c, ParseInt buffered ms]"
    by (auto simp: digitalWrite_def emit_def)
  from m have 2: "trace w2 = trace w1 @ [Micros TrialStart start]" by (auto simp: micros_effect)
  from get_responses_store_count [OF g] obtain coll where
    3: "trace w3 = trace w2 @ coll" "length (filter is_store coll) = unat n"
    by auto
  from report_trace(1) [OF r] obtain rep where 4: "trace w' = trace w3 @ rep"
    "\<not> list_ex is_store rep"
    using report_of_no_store [of l w3] by (auto simp: report_of_def l)
  have ser: "filter is_store (map Discarded cs) = []" for cs by (induction cs) simp_all
  from 1 2 3 4 have "since w w' = (Led True # map Discarded (rx w) @
      [ParseInt [] c, ParseInt buffered ms, Micros TrialStart start]) @ coll @ rep"
    by (simp add: since_def)
  with 3 4 ser l show ?thesis by (simp add: list_ex_iff filter_empty_conv)
qed

lemma product_limit_seen_iff:
  "unat ms * 1000 < 2 ^ 32 \<Longrightarrow> product_limit_seen st ms ev = deadline_seen st (ms * 1000) ev"
proof -
  assume small: "unat ms * 1000 < 2 ^ 32"
  have "unat (ms * 1000) = (unat ms * 1000) mod 2 ^ 32" by (simp add: unat_word_ariths)
  with small have u: "unat (ms * 1000) = unat ms * 1000" by simp
  show ?thesis
  proof (cases ev)
    case (Micros s t)
    then show ?thesis by (cases s) (simp_all add: word_le_nat_alt u)
  qed simp_all
qed

section \<open>The claims\<close>

text \<open>The definitions a sample trial is evaluated with.\<close>

lemmas run_trial = loop_def get_params_def parseInt_def timedPeek.simps peekNextDigit.simps
  parse_digits.simps discard_stale.simps digitalWrite_def emit_def serial_read_def
  is_digit_def skipChar_def micros_def analogRead_def digitalReads_def store_def
  clamp_target_def MaxRespCount_def get_responses.simps debounce_def debounce_loop.simps
  debounce_body_def get_one_response.simps poll_once_def elapsed_def tDebounce_def
  adThreshLow_def adThreshHigh_def report_def relative_timestamps_def Let_def since_def

subsection \<open>C1: the requested count is clamped to the capacity before it is used\<close>

text \<open>
  C1.  Whatever count \<open>c\<close> the first \<^verbatim>\<open>parseInt\<close> of a trial returns (as the
  \<^verbatim>\<open>unsigned long\<close> it is assigned to), the target the trial works with is
  \<open>min c MaxRespCount\<close> with \<open>MaxRespCount = 256\<close>: that is the value of
  \<open>respCountTarget\<close> from line 136 on, every store of the response loop goes to an
  index below it, the trial never writes or reads outside the 256 slots of
  \<open>respTAbs\<close>, and it never collects more than 256 responses.
\<close>

theorem clamp_before_use:
  assumes "get_params (digitalWrite True w) = (c, ms, w1)"
  shows "unat (clamp_target c) = min (unat c) MaxRespCount \<and>
         MaxRespCount = 256 \<and>
         loop w \<noteq> Inl ArrayOverrun \<and>
         (\<forall>l w'. loop w = Inr (l, w') \<longrightarrow>
            respCountTarget l = clamp_target c \<and> unat (respCount l) \<le> MaxRespCount \<and>
            list_all (stored_below (min (unat c) MaxRespCount)) (since w w'))"
proof -
  have "respCountTarget l = clamp_target c \<and> unat (respCount l) \<le> MaxRespCount \<and>
      list_all (stored_below (min (unat c) MaxRespCount)) (since w w')"
    if run: "loop w = Inr (l, w')" for l w'
  proof -
    from run assms have target: "respCountTarget l = clamp_target c"
      unfolding loop_Inr by auto
    moreover from loop_count(1) [OF run] this clamp_target_le [of c]
    have "unat (respCount l) \<le> MaxRespCount" by simp
    moreover from loop_stores [OF run] target
    have "list_all (stored_below (min (unat c) MaxRespCount)) (since w w')"
      by (simp add: clamp_target_min)
    ultimately show ?thesis by simp
  qed
  moreover have "loop w \<noteq> Inl ArrayOverrun"
    using loop_fault [of w ArrayOverrun] by auto
  ultimately show ?thesis
    by (simp add: clamp_target_min MaxRespCount_def)
qed

theorem clamp_before_use_witness:
  "fst (get_params (digitalWrite True over_capacity)) = 300 \<and>
   unat (clamp_target 300) = 256 \<and>
   (case loop over_capacity of
      Inl f \<Rightarrow> False
    | Inr (l, w') \<Rightarrow>
        respCountTarget l = 256 \<and> unat (respCount l) \<le> 256 \<and>
        list_all (stored_below 256) (since over_capacity w'))"
proof -
  obtain ms w1 where params: "get_params (digitalWrite True over_capacity) = (300, ms, w1)"
    by (simp add: run_trial over_capacity_def)
  obtain l w' where run: "loop over_capacity = Inr (l, w')"
    by (simp add: run_trial over_capacity_def)
  note inst = clamp_before_use [OF params]
  have clamped: "clamp_target 300 = 256"
    by (simp add: clamp_target_def MaxRespCount_def)
  from inst run have "respCountTarget l = clamp_target 300" by blast
  with clamped have target: "respCountTarget l = 256" by simp
  from inst run have "unat (respCount l) \<le> MaxRespCount" by blast
  then have count: "unat (respCount l) \<le> 256" by (simp add: MaxRespCount_def)
  from inst run
  have "list_all (stored_below (min (unat (300 :: ulong)) MaxRespCount)) (since over_capacity w')"
    by blast
  then have stores: "list_all (stored_below 256) (since over_capacity w')"
    by (simp add: MaxRespCount_def)
  from clamped have "unat (clamp_target 300) = 256" by simp
  with params run target count stores show ?thesis by simp
qed

subsection \<open>C2: the reported timestamps\<close>

text \<open>
  C2, as amended.  The numbers a trial prints are the target, the time limit, the
  start value of the clock, the count, the relative timestamps and the final clock
  value.  In every trial each relative timestamp is below \<open>respTLimit\<close>, hence at most
  \<open>timeLimitMs \<times> 1000\<close>.  If the clock values of the trial are those of non-decreasing
  true times that are all less than \<open>2 ^ 32\<close> \<open>\<mu>s\<close> after the first (the start of the
  trial), the relative timestamps are non-decreasing in the order of arrival.
\<close>

theorem relative_timestamps_reported:
  assumes "loop w = Inr (l, w')"
  shows "(\<exists>tEnd. fields (since w w') =
            [respCountTarget l, respTLimit_ms l, t0 l, ucast (respCount l)] @
            relative_timestamps (t0 l) (respCount l) w' @ [tEnd]) \<and>
         (\<forall>r\<in>set (relative_timestamps (t0 l) (respCount l) w').
            unat r < unat (respTLimit l) \<and> unat r \<le> unat (respTLimit_ms l) * 1000) \<and>
         (clock w = map micros_at ts \<and> sorted ts \<and> (\<forall>t\<in>set ts. t < hd ts + 2 ^ 32) \<longrightarrow>
            sorted (map unat (relative_timestamps (t0 l) (respCount l) w')))"
proof -
  from assms obtain c ms w1 start w2 e n w3 where
    p: "get_params (digitalWrite True w) = (c, ms, w1)" and
    m: "micros TrialStart w1 = Inr (start, w2)" and
    g: "get_responses (clamp_target c) (ms * 1000) start 0 w2 = Inr (e, n, w3)" and
    r: "report (clamp_target c) ms start n w3 = Inr w'" and
    l: "l = \<lparr>respCountTarget = clamp_target c, respTLimit_ms = ms, respTLimit = ms * 1000,
              respCount = n, t0 = start, ending = e\<rparr>"
    unfolding loop_Inr by blast
  have tabs: "respTAbs w' = respTAbs w3" using r by (rule report_respTAbs)
  have rel: "relative_timestamps (t0 l) (respCount l) w' = map (\<lambda>i. elapsed (respTAbs w3 i) start) [0..<unat n]"
    using l tabs by (simp add: relative_timestamps_def elapsed_def)
  from get_responses_within_limit [OF g] have lim: "\<forall>i<unat n. elapsed (respTAbs w3 i) start < ms * 1000"
    by simp
  have range: "unat r < unat (respTLimit l) \<and> unat r \<le> unat (respTLimit_ms l) * 1000"
    if "r \<in> set (relative_timestamps (t0 l) (respCount l) w')" for r
  proof -
    from that lim have "r < ms * 1000" unfolding rel by auto
    then have "unat r < unat (ms * 1000)" by (simp add: word_less_nat_alt)
    with unat_times_1000 [of ms] l show ?thesis by simp
  qed
  have mono: "sorted (map unat (relative_timestamps (t0 l) (respCount l) w'))"
    if ck: "clock w = map micros_at ts" and s: "sorted ts" and w1w: "\<forall>t\<in>set ts. t < hd ts + 2 ^ 32"
  proof -
    from get_params_clock [OF p] have "clock w1 = clock w" by (simp add: digitalWrite_def emit_def)
    with m ck have c2: "map micros_at ts = start # clock w2" by (auto simp: micros_effect emit_def)
    then have st: "start = micros_at (hd ts)" by (cases ts) auto
    from sorted_clock_values [OF s w1w] c2 st
    have "sorted (map (\<lambda>c. unat (elapsed c start)) (start # clock w2))" by simp
    then have "sorted (map (\<lambda>c. unat (elapsed c start)) (timeline 0 w2))"
      by (simp add: timeline_def)
    from get_responses_ordered [OF g this]
    have "sorted (map (\<lambda>c. unat (elapsed c start)) (map (respTAbs w3) [0..<unat n]))"
      by (simp add: timeline_def sorted_append)
    then show ?thesis unfolding rel by (simp add: comp_def)
  qed
  from loop_fields [OF assms] range mono show ?thesis by blast
qed

theorem relative_timestamps_reported_witness:
  "clock across_wrap =
     map micros_at [4294900000, 4294900010, 4294960010, 4294969000, 4294969010,
                    4295029010, 4295039000, 4295049000] \<and>
   sorted [4294900000, 4294900010, 4294960010, 4294969000, 4294969010,
           4295029010, 4295039000, 4295049000 :: nat] \<and>
   trial_timestamps across_wrap = [69000, 139000] \<and>
   sorted (map unat (trial_timestamps across_wrap)) \<and>
   list_all (\<lambda>r. unat r < 500000) (trial_timestamps across_wrap) \<and>
   reported across_wrap = [2, 500, micros_at 4294900000, 2, 69000, 139000, micros_at 4295049000]"
proof -
  let ?ts = "[4294900000, 4294900010, 4294960010, 4294969000, 4294969010,
              4295029010, 4295039000, 4295049000 :: nat]"
  obtain l w' where run: "loop across_wrap = Inr (l, w')"
    and lim: "respTLimit l = 500000"
    and rel: "relative_timestamps (t0 l) (respCount l) w' = [69000, 139000]"
    and rep: "fields (since across_wrap w') =
                [2, 500, micros_at 4294900000, 2, 69000, 139000, micros_at 4295049000]"
    by (simp add: run_trial across_wrap_def micros_at_def upt_0_2 fields_def)
  have ck: "clock across_wrap = map micros_at ?ts" by (simp add: across_wrap_def)
  have s: "sorted ?ts" by simp
  have w: "\<forall>t\<in>set ?ts. t < hd ?ts + 2 ^ 32" by simp
  note inst = relative_timestamps_reported [OF run, of ?ts]
  from inst ck s w have "sorted (map unat (relative_timestamps (t0 l) (respCount l) w'))"
    by blast
  moreover from inst lim
  have "\<forall>r\<in>set (relative_timestamps (t0 l) (respCount l) w'). unat r < 500000"
    by auto
  ultimately show ?thesis using run rel rep ck s
    by (simp add: trial_timestamps_def reported_def list_all_iff)
qed

text \<open>
  C2 as stated speaks of every trial, also of one that outlasts a period of the
  clock.  Take a trial with a time limit of 4294967 ms
  whose first response comes 4294960000 \<open>\<mu>s\<close> after its start.  The debounce phase of
  the next attempt ends after the clock has passed the start value again; the next
  poll finds 52724 \<open>\<mu>s\<close> elapsed, below the limit, and a response is stored.  The
  report gives the timestamps 4294960000 and 52724, in this order.
\<close>

theorem timestamps_not_ordered_counterexample:
  "clock long_trial =
     map micros_at [1000, 1010, 31010, 61010, 4294961000, 4294961010, 4294991010,
                    4295021010, 4295021020, 4295021030] \<and>
   sorted [1000, 1010, 31010, 61010, 4294961000, 4294961010, 4294991010,
           4295021010, 4295021020, 4295021030 :: nat] \<and>
   trial_timestamps long_trial = [4294960000, 52724] \<and>
   reported long_trial = [2, 4294967, 1000, 2, 4294960000, 52724, 53734] \<and>
   \<not> sorted (map unat (trial_timestamps long_trial))"
  by (simp add: trial_timestamps_def reported_def run_trial long_trial_def micros_at_def upt_0_2
      fields_def)

subsection \<open>C3: no more responses than the target, and all of them unless the limit is seen\<close>

text \<open>
  C3, as amended.  In every trial that returns, the count the trial keeps and prints
  as the fourth field is the number of responses it stored, and it is at most the
  clamped target, the first field.  The limit the polls compare with is the 32-bit
  product \<open>respTLimit_ms * 1000\<close>.  If no poll of the response loop found the time since
  the start of the trial at or above that limit, the count equals the clamped target;
  so it does, when \<open>timeLimitMs \<times> 1000\<close> is below \<open>2 ^ 32\<close>, if no poll found the time
  since the start at or above \<open>timeLimitMs \<times> 1000\<close>.
\<close>

theorem collected_count_bounded:
  assumes "loop w = Inr (l, w')"
  shows "length (filter is_store (since w w')) = unat (respCount l) \<and>
         fields (since w w') ! 0 = respCountTarget l \<and>
         fields (since w w') ! 3 = ucast (respCount l) \<and>
         unat (respCount l) \<le> unat (respCountTarget l) \<and>
         respTLimit l = respTLimit_ms l * 1000 \<and>
         (\<not> list_ex (deadline_seen (t0 l) (respTLimit l)) (since w w') \<longrightarrow>
            unat (respCount l) = unat (respCountTarget l)) \<and>
         (unat (respTLimit_ms l) * 1000 < 2 ^ 32 \<and>
          \<not> list_ex (product_limit_seen (t0 l) (respTLimit_ms l)) (since w w') \<longrightarrow>
            unat (respCount l) = unat (respCountTarget l))"
proof -
  have lim: "respTLimit l = respTLimit_ms l * 1000"
    using assms unfolding loop_Inr by auto
  have reached: "ending l = TargetReached"
    if "\<not> list_ex (deadline_seen (t0 l) (respTLimit l)) (since w w')"
    using that loop_deadline_seen [OF assms] by (cases "ending l") simp_all
  have same: "list_ex (product_limit_seen (t0 l) (respTLimit_ms l)) (since w w') =
      list_ex (deadline_seen (t0 l) (respTLimit l)) (since w w')"
    if "unat (respTLimit_ms l) * 1000 < 2 ^ 32"
    unfolding lim list_ex_iff using product_limit_seen_iff [OF that] by simp
  from loop_fields [OF assms] obtain tEnd where
    f: "fields (since w w') =
           [respCountTarget l, respTLimit_ms l, t0 l, ucast (respCount l)] @
           relative_timestamps (t0 l) (respCount l) w' @ [tEnd]" by blast
  have "fields (since w w') ! 0 = respCountTarget l" "fields (since w w') ! 3 = ucast (respCount l)"
    unfolding f by (simp_all add: eval_nat_numeral)
  with loop_store_count [OF assms] loop_count [OF assms] lim reached same
  show ?thesis by blast
qed

theorem collected_count_bounded_witness:
  "case loop one_tap of
     Inl f \<Rightarrow> False
   | Inr (l, w') \<Rightarrow>
       unat (respTLimit_ms l) * 1000 < 2 ^ 32 \<and>
       \<not> list_ex (product_limit_seen (t0 l) (respTLimit_ms l)) (since one_tap w') \<and>
       \<not> list_ex (deadline_seen (t0 l) (respTLimit l)) (since one_tap w') \<and>
       filter is_store (since one_tap w') = [Store 0 70000] \<and>
       unat (respCount l) = 1 \<and> unat (respCountTarget l) = 1 \<and>
       fields (since one_tap w') ! 3 = 1"
proof -
  obtain l w' where run: "loop one_tap = Inr (l, w')"
    and small: "unat (respTLimit_ms l) * 1000 < 2 ^ 32"
    and unseen: "\<not> list_ex (product_limit_seen (t0 l) (respTLimit_ms l)) (since one_tap w')"
    and quiet: "\<not> list_ex (deadline_seen (t0 l) (respTLimit l)) (since one_tap w')"
    and stores: "filter is_store (since one_tap w') = [Store 0 70000]"
    and target: "unat (respCountTarget l) = 1"
    by (simp add: run_trial one_tap_def)
  note inst = collected_count_bounded [OF run]
  from inst small unseen target have count: "unat (respCount l) = 1" by simp
  then have "respCount l = 1" by (simp add: word_unat_eq_iff)
  with inst have "fields (since one_tap w') ! 3 = 1" by simp
  with run small unseen quiet stores target count show ?thesis by simp
qed

text \<open>
  C3 as stated has the count equal to the target whenever the time limit has not
  expired.  With a limit of 4294968 ms the 32-bit product is 704 \<open>\<mu>s\<close>: the first poll,
  60020 \<open>\<mu>s\<close> after the start and with a button down, ends the collection, and the
  trial reports 0 of 1 responses although \<open>timeLimitMs \<times> 1000\<close> is far from reached.
\<close>

theorem limit_wraps_counterexample:
  "trial_events limit_wraps =
     [Led True, ParseInt [] 1, ParseInt '',4294968,'' 4294968, Micros TrialStart 1000,
      Led True, Micros DebounceStart 1010, Micros DebounceCheck 61010, Led False,
      Micros DetectPoll 61020,
      PrintNum 1, PrintStr '' '', PrintNum 4294968, PrintStr '' '', PrintNum 1000, PrintStr '' '',
      PrintNum 0, PrintStr '' '', Micros ReportEnd 61030, PrintNum 61030, PrintLn ''.''] \<and>
   reported limit_wraps = [1, 4294968, 1000, 0, 61030] \<and>
   unat (elapsed 61020 1000) = 60020 \<and>
   unat (4294968 :: ulong) * 1000 = 4294968000 \<and>
   unat (4294968 * 1000 :: ulong) = 704 \<and>
   \<not> list_ex (product_limit_seen 1000 4294968) (trial_events limit_wraps) \<and>
   filter is_store (trial_events limit_wraps) = [] \<and>
   reported limit_wraps ! 3 \<noteq> reported limit_wraps ! 0"
  by (simp add: reported_def trial_events_def run_trial limit_wraps_def fields_def)

subsection \<open>C4: the time limit ends the collection at once\<close>



subsection \<open>C5: the debounce phase ends only after a calm interval\<close>



subsection \<open>C6: the thresholds are inclusive, the buttons come first\<close>



subsection \<open>C7: elapsed time across a wrap of the clock\<close>

text \<open>
  C7, as amended.  When the true time \<open>now\<close> is not before \<open>start\<close> and less than
  \<open>2 ^ 32\<close> microseconds after it, the unsigned difference of the two clock values is
  the true elapsed time, also when the clock value of \<open>now\<close> is the smaller number; so
  the comparison of the debounce loop and the comparison with the time limit decide on
  the true elapsed time.
\<close>

theorem elapsed_within_one_wrap:
  assumes "start \<le> now" and "now - start < 2 ^ 32"
  shows "unat (elapsed (micros_at now) (micros_at start)) = now - start \<and>
         (elapsed (micros_at now) (micros_at start) < tDebounce \<longleftrightarrow> now - start < 60000) \<and>
         (lim \<le> elapsed (micros_at now) (micros_at start) \<longleftrightarrow> unat lim \<le> now - start)"
  using elapsed_micros_at(2) [OF assms]
  by (simp add: word_less_nat_alt word_le_nat_alt tDebounce_def)

theorem elapsed_within_one_wrap_witness:
  "(4294967290 :: nat) \<le> 4294967306 \<and> (4294967306 :: nat) - 4294967290 < 2 ^ 32 \<and>
   micros_at 4294967306 < micros_at 4294967290 \<and>
   unat (elapsed (micros_at 4294967306) (micros_at 4294967290)) = 16 \<and>
   elapsed (micros_at 4294967306) (micros_at 4294967290) < tDebounce \<and>
   \<not> 17 \<le> elapsed (micros_at 4294967306) (micros_at 4294967290)"
  using elapsed_within_one_wrap [of 4294967290 4294967306 17]
  by (simp add: micros_at_def)

text \<open>
  C7 as stated allows \<open>now\<close> to be one wrap ahead of \<open>start\<close>.  With the counter wrapped
  once between the two samples the difference can be short by \<open>2 ^ 32\<close>: from true time
  10 to true time \<open>2 ^ 32 + 20\<close> it is 10, and after exactly \<open>2 ^ 32\<close> microseconds it is 0.
\<close>

theorem elapsed_one_wrap_counterexample:
  "(10 :: nat) \<le> 4294967316 \<and> wraps_between 10 4294967316 \<le> 1 \<and>
   unat (elapsed (micros_at 4294967316) (micros_at 10)) = 10 \<and>
   unat (elapsed (micros_at 4294967316) (micros_at 10)) \<noteq> 4294967316 - 10 \<and>
   elapsed (micros_at 4294967316) (micros_at 10) < tDebounce \<and>
   (0 :: nat) \<le> 4294967296 \<and> wraps_between 0 4294967296 \<le> 1 \<and> (4294967296 :: nat) - 0 \<le> 2 ^ 32 \<and>
   unat (elapsed (micros_at 4294967296) (micros_at 0)) \<noteq> 4294967296 - 0"
  by (simp add: wraps_between_def micros_at_def elapsed_def tDebounce_def)

subsection \<open>C8: stale serial input is discarded once\<close>

text \<open>
  C8, as amended.  What the receive buffer holds when a trial begins is discarded
  before the first \<^verbatim>\<open>parseInt\<close>, which so starts on an empty buffer; between the first
  and the second \<^verbatim>\<open>parseInt\<close> nothing is discarded.
\<close>

theorem stale_input_discarded_once:
  assumes "get_params w = (c, ms, w')"
  shows "\<exists>buffered. since w w' = map Discarded (rx w) @ [ParseInt [] c, ParseInt buffered ms]"
proof -
  from get_params_trace [OF assms] obtain buffered where
    "trace w' = trace w @ map Discarded (rx w) @ [ParseInt [] c, ParseInt buffered ms]" by blast
  then have "since w w' = map Discarded (rx w) @ [ParseInt [] c, ParseInt buffered ms]"
    by (rule since_append)
  then show ?thesis by blast
qed

theorem stale_input_discarded_once_witness:
  "\<exists>w'. get_params one_tap = (1, 500, w') \<and>
      since one_tap w' = [Discarded CHR ''x'', ParseInt [] 1, ParseInt '',500,'' 500]"
proof -
  obtain w' where p: "get_params one_tap = (1, 500, w')"
    and r: "rx one_tap = ''x''" and t: "trace one_tap = []"
    and second: "trace w' ! 2 = ParseInt '',500,'' 500"
    by (simp add: run_trial one_tap_def)
  from stale_input_discarded_once [OF p] obtain buffered where
    s: "since one_tap w' = map Discarded (rx one_tap) @ [ParseInt [] 1, ParseInt buffered 500]"
    by blast
  with t second r have "buffered = '',500,''" by (simp add: since_def)
  with s r p show ?thesis by simp
qed

text \<open>
  C8 as stated has the buffer emptied before each of the two reads.  When the host
  sends \<^verbatim>\<open>1,500,\<close> in one burst, the second read finds \<^verbatim>\<open>,500,\<close> in the buffer and
  parses the time limit from it.
\<close>

theorem second_read_not_flushed_counterexample:
  "since one_tap (snd (snd (get_params one_tap))) =
     [Discarded CHR ''x'', ParseInt [] 1, ParseInt '',500,'' 500] \<and>
   \<not> list_all starts_empty (since one_tap (snd (snd (get_params one_tap))))"
  by (simp add: run_trial one_tap_def)

subsection \<open>C9: the indicator during the report\<close>

text \<open>
  C9 at a request for zero responses: the loop of line 145 is not entered, so the
  indicator that line 129 switched on is never switched off, and every print of the
  report happens with the indicator on.
\<close>

theorem led_on_while_reporting_zero_target:
  "case loop zero_target of
     Inl f \<Rightarrow> False
   | Inr (l, w') \<Rightarrow>
       respCountTarget l = 0 \<and> respCount l = 0 \<and>
       since zero_target w' =
         [Led True, ParseInt [] 0, ParseInt '',500,'' 500, Micros TrialStart 100,
          PrintNum 0, PrintStr '' '', PrintNum 500, PrintStr '' '', PrintNum 100, PrintStr '' '',
          PrintNum 0, PrintStr '' '', Micros ReportEnd 200, PrintNum 200, PrintLn ''.''] \<and>
       led_at_prints None (since zero_target w') = replicate 10 (Some True)"
  by (simp add: run_trial zero_target_def eval_nat_numeral)

subsection \<open>C10: the report echoes the clamped target\<close>

text \<open>
  C10.  The first number a trial prints is the clamped target count, not the count
  that was requested: line 136 overwrites \<open>respCountTarget\<close> and line 174 prints the
  same variable.  For a request above \<open>MaxRespCount\<close> the first field of the record
  is 256.
\<close>

theorem echoed_target_is_clamped:
  assumes "get_params (digitalWrite True w) = (c, ms, w1)"
    and "loop w = Inr (l, w')"
  shows "fields (since w w') \<noteq> [] \<and>
         hd (fields (since w w')) = clamp_target c \<and>
         (MaxRespCount < unat c \<longrightarrow> hd (fields (since w w')) = 256)"
proof -
  from assms have "respCountTarget l = clamp_target c"
    unfolding loop_Inr by auto
  with loop_fields [OF assms(2)] have "fields (since w w') \<noteq> []"
    and "hd (fields (since w w')) = clamp_target c" by auto
  moreover have "clamp_target c = 256" if "MaxRespCount < unat c"
    using that by (simp add: clamp_target_def MaxRespCount_def word_less_nat_alt)
  ultimately show ?thesis by simp
qed

theorem echoed_target_is_clamped_witness:
  "fst (get_params (digitalWrite True over_capacity)) = 300 \<and>
   (case loop over_capacity of
      Inl f \<Rightarrow> False
    | Inr (l, w') \<Rightarrow> hd (fields (since over_capacity w')) = 256)"
proof -
  obtain ms w1 where params: "get_params (digitalWrite True over_capacity) = (300, ms, w1)"
    by (simp add: run_trial over_capacity_def)
  obtain l w' where run: "loop over_capacity = Inr (l, w')"
    by (simp add: run_trial over_capacity_def)
  from echoed_target_is_clamped [OF params run]
  have "MaxRespCount < unat (300 :: ulong) \<longrightarrow> hd (fields (since over_capacity w')) = 256"
    by blast
  then have "hd (fields (since over_capacity w')) = 256" by (simp add: MaxRespCount_def)
  with params run show ?thesis by simp
qed

end
